theory Spec2Isabelle
  imports Complex_Main
begin

section \<open>Key codes and key specifications\<close>

text \<open>
  \<^verbatim>\<open>Keycode\<close> is the class of integer constants of the \<^verbatim>\<open>adafruit_hid\<close> library (the USB
  HID usage ids); the library is not part of the repository. A key code is an integer,
  \<open>Keycode n\<close> here, and the constants the program names are given with the library's
  values. What the program depends on is that they are pairwise distinct and non-zero.
\<close>

datatype keycode = Keycode nat

abbreviation Keycode_A :: keycode where "Keycode_A \<equiv> Keycode 4"
abbreviation Keycode_B :: keycode where "Keycode_B \<equiv> Keycode 5"
abbreviation Keycode_C :: keycode where "Keycode_C \<equiv> Keycode 6"
abbreviation Keycode_D :: keycode where "Keycode_D \<equiv> Keycode 7"
abbreviation Keycode_E :: keycode where "Keycode_E \<equiv> Keycode 8"
abbreviation Keycode_F :: keycode where "Keycode_F \<equiv> Keycode 9"
abbreviation Keycode_G :: keycode where "Keycode_G \<equiv> Keycode 10"
abbreviation Keycode_H :: keycode where "Keycode_H \<equiv> Keycode 11"
abbreviation Keycode_I :: keycode where "Keycode_I \<equiv> Keycode 12"
abbreviation Keycode_J :: keycode where "Keycode_J \<equiv> Keycode 13"
abbreviation Keycode_K :: keycode where "Keycode_K \<equiv> Keycode 14"
abbreviation Keycode_L :: keycode where "Keycode_L \<equiv> Keycode 15"
abbreviation Keycode_M :: keycode where "Keycode_M \<equiv> Keycode 16"
abbreviation Keycode_N :: keycode where "Keycode_N \<equiv> Keycode 17"
abbreviation Keycode_O :: keycode where "Keycode_O \<equiv> Keycode 18"
abbreviation Keycode_P :: keycode where "Keycode_P \<equiv> Keycode 19"
abbreviation Keycode_Q :: keycode where "Keycode_Q \<equiv> Keycode 20"
abbreviation Keycode_R :: keycode where "Keycode_R \<equiv> Keycode 21"
abbreviation Keycode_S :: keycode where "Keycode_S \<equiv> Keycode 22"
abbreviation Keycode_T :: keycode where "Keycode_T \<equiv> Keycode 23"
abbreviation Keycode_U :: keycode where "Keycode_U \<equiv> Keycode 24"
abbreviation Keycode_V :: keycode where "Keycode_V \<equiv> Keycode 25"
abbreviation Keycode_W :: keycode where "Keycode_W \<equiv> Keycode 26"
abbreviation Keycode_X :: keycode where "Keycode_X \<equiv> Keycode 27"
abbreviation Keycode_Y :: keycode where "Keycode_Y \<equiv> Keycode 28"
abbreviation Keycode_Z :: keycode where "Keycode_Z \<equiv> Keycode 29"
abbreviation Keycode_ONE :: keycode where "Keycode_ONE \<equiv> Keycode 30"
abbreviation Keycode_TWO :: keycode where "Keycode_TWO \<equiv> Keycode 31"
abbreviation Keycode_THREE :: keycode where "Keycode_THREE \<equiv> Keycode 32"
abbreviation Keycode_FOUR :: keycode where "Keycode_FOUR \<equiv> Keycode 33"
abbreviation Keycode_FIVE :: keycode where "Keycode_FIVE \<equiv> Keycode 34"
abbreviation Keycode_SIX :: keycode where "Keycode_SIX \<equiv> Keycode 35"
abbreviation Keycode_SEVEN :: keycode where "Keycode_SEVEN \<equiv> Keycode 36"
abbreviation Keycode_EIGHT :: keycode where "Keycode_EIGHT \<equiv> Keycode 37"
abbreviation Keycode_NINE :: keycode where "Keycode_NINE \<equiv> Keycode 38"
abbreviation Keycode_ZERO :: keycode where "Keycode_ZERO \<equiv> Keycode 39"
abbreviation Keycode_RETURN :: keycode where "Keycode_RETURN \<equiv> Keycode 40"
abbreviation Keycode_ESCAPE :: keycode where "Keycode_ESCAPE \<equiv> Keycode 41"
abbreviation Keycode_BACKSPACE :: keycode where "Keycode_BACKSPACE \<equiv> Keycode 42"
abbreviation Keycode_TAB :: keycode where "Keycode_TAB \<equiv> Keycode 43"
abbreviation Keycode_SPACEBAR :: keycode where "Keycode_SPACEBAR \<equiv> Keycode 44"
abbreviation Keycode_MINUS :: keycode where "Keycode_MINUS \<equiv> Keycode 45"
abbreviation Keycode_EQUALS :: keycode where "Keycode_EQUALS \<equiv> Keycode 46"
abbreviation Keycode_LEFT_BRACKET :: keycode where "Keycode_LEFT_BRACKET \<equiv> Keycode 47"
abbreviation Keycode_RIGHT_BRACKET :: keycode where "Keycode_RIGHT_BRACKET \<equiv> Keycode 48"
abbreviation Keycode_BACKSLASH :: keycode where "Keycode_BACKSLASH \<equiv> Keycode 49"
abbreviation Keycode_POUND :: keycode where "Keycode_POUND \<equiv> Keycode 50"
abbreviation Keycode_SEMICOLON :: keycode where "Keycode_SEMICOLON \<equiv> Keycode 51"
abbreviation Keycode_QUOTE :: keycode where "Keycode_QUOTE \<equiv> Keycode 52"
abbreviation Keycode_COMMA :: keycode where "Keycode_COMMA \<equiv> Keycode 54"
abbreviation Keycode_PERIOD :: keycode where "Keycode_PERIOD \<equiv> Keycode 55"
abbreviation Keycode_FORWARD_SLASH :: keycode where "Keycode_FORWARD_SLASH \<equiv> Keycode 56"
abbreviation Keycode_CAPS_LOCK :: keycode where "Keycode_CAPS_LOCK \<equiv> Keycode 57"
abbreviation Keycode_F1 :: keycode where "Keycode_F1 \<equiv> Keycode 58"
abbreviation Keycode_F2 :: keycode where "Keycode_F2 \<equiv> Keycode 59"
abbreviation Keycode_F3 :: keycode where "Keycode_F3 \<equiv> Keycode 60"
abbreviation Keycode_F4 :: keycode where "Keycode_F4 \<equiv> Keycode 61"
abbreviation Keycode_F5 :: keycode where "Keycode_F5 \<equiv> Keycode 62"
abbreviation Keycode_F6 :: keycode where "Keycode_F6 \<equiv> Keycode 63"
abbreviation Keycode_F7 :: keycode where "Keycode_F7 \<equiv> Keycode 64"
abbreviation Keycode_F8 :: keycode where "Keycode_F8 \<equiv> Keycode 65"
abbreviation Keycode_F9 :: keycode where "Keycode_F9 \<equiv> Keycode 66"
abbreviation Keycode_F10 :: keycode where "Keycode_F10 \<equiv> Keycode 67"
abbreviation Keycode_DELETE :: keycode where "Keycode_DELETE \<equiv> Keycode 76"
abbreviation Keycode_RIGHT_ARROW :: keycode where "Keycode_RIGHT_ARROW \<equiv> Keycode 79"
abbreviation Keycode_LEFT_ARROW :: keycode where "Keycode_LEFT_ARROW \<equiv> Keycode 80"
abbreviation Keycode_DOWN_ARROW :: keycode where "Keycode_DOWN_ARROW \<equiv> Keycode 81"
abbreviation Keycode_UP_ARROW :: keycode where "Keycode_UP_ARROW \<equiv> Keycode 82"
abbreviation Keycode_KEYPAD_ASTERISK :: keycode where "Keycode_KEYPAD_ASTERISK \<equiv> Keycode 85"
abbreviation Keycode_LEFT_CONTROL :: keycode where "Keycode_LEFT_CONTROL \<equiv> Keycode 224"
abbreviation Keycode_SHIFT :: keycode where "Keycode_SHIFT \<equiv> Keycode 225"
abbreviation Keycode_ALT :: keycode where "Keycode_ALT \<equiv> Keycode 226"
abbreviation Keycode_WINDOWS :: keycode where "Keycode_WINDOWS \<equiv> Keycode 227"

text \<open>
  A value handed to the debounce engine is a bare key code, a \<^verbatim>\<open>Shifted\<close> object or an
  \<^verbatim>\<open>AltShift\<close> object. The two classes define neither \<^verbatim>\<open>__eq__\<close> nor \<^verbatim>\<open>__hash__\<close>, so
  Python compares and hashes their instances by identity; every instance is created once, in
  the key table, and no two \<^verbatim>\<open>Shifted\<close> instances of the table wrap the same code, so that
  identity and structural equality agree on the table's objects (lemma
  \<open>keys_shifted_distinct\<close> below).
\<close>

datatype key =
    Code keycode
  | Shifted keycode
  | AltShift key key

section \<open>The HID sink: class HIDKeyboard\<close>

text \<open>
  \<^verbatim>\<open>Keyboard.press\<close> and \<^verbatim>\<open>Keyboard.release\<close> belong to the library; the model records the
  calls in the order they are made. \<^verbatim>\<open>key_press\<close> sends a \<^verbatim>\<open>str\<close> through the layout
  writer; no caller in the repository passes one, and type \<^typ>\<open>key\<close> has none.
\<close>

datatype hid_event = Press key | Release key

record hid_keyboard =
  sent :: "hid_event list"
  shift_down :: bool

definition HIDKeyboard_init :: hid_keyboard where
  "HIDKeyboard_init = \<lparr>sent = [], shift_down = False\<rparr>"

definition key_press :: "key \<Rightarrow> hid_keyboard \<Rightarrow> hid_keyboard" where
  "key_press value kb =
     (let kb1 = kb\<lparr>sent := sent kb @ [Press value]\<rparr>
      in if value = Code Keycode_SHIFT then kb1\<lparr>shift_down := True\<rparr> else kb1)"

definition key_release :: "key \<Rightarrow> hid_keyboard \<Rightarrow> hid_keyboard" where
  "key_release value kb =
     (let kb1 = kb\<lparr>sent := sent kb @ [Release value]\<rparr>
      in if value = Code Keycode_SHIFT then kb1\<lparr>shift_down := False\<rparr> else kb1)"

section \<open>Process state\<close>

text \<open>
  The program keeps its state in module-level objects. \<open>world\<close> collects them: the HID
  wrapper \<^verbatim>\<open>bbc_keyboard\<close>, the debounce engine \<^verbatim>\<open>input_processor\<close>, the lines printed,
  the level of every output pin with the sequence of writes that produced it, the absence
  counter of the hardware scan and the level held by the break button's debouncer.

  Times are the readings of \<^verbatim>\<open>time.monotonic()\<close>, Python floats. A float is taken as the
  real number it stands for, and an arithmetic operation on floats gives the exact result
  rounded to a float: the functions that compute with times take the rounding \<open>fl\<close> of the
  interpreter as a parameter, and what is proved of them holds for every rounding.

  The pending map \<^verbatim>\<open>queue\<close> is a \<^verbatim>\<open>dict\<close>; it is kept as the list of its items, in the
  order in which the interpreter iterates them. The interpreter places a new key in its hash
  table by the hash of the key; the list takes it at the end. What is proved of the iteration
  holds for every order of the list.
\<close>

datatype py_error = ValueError

datatype pin =
    GP0 | GP1 | GP2 | GP3 | GP4 | GP5 | GP6 | GP7 | GP8 | GP9
  | GP10 | GP12 | GP13 | GP14 | GP15 | GP25

datatype console_line =
    ShiftBreak
  | ProcessLine nat nat "key option"

record debounce_input =
  queue :: "(key \<times> real) list"
  short_queue :: "(key \<times> real) list"
  recent_release :: "key option"
  delay :: real
  short_delay :: real
  no_input_registered :: bool

record world =
  bbc_keyboard :: hid_keyboard
  input_processor :: debounce_input
  stdout :: "console_line list"
  pin_value :: "pin \<Rightarrow> bool"
  pin_writes :: "(pin \<times> bool) list"
  absence_count :: nat
  switch_value :: bool

definition print :: "console_line \<Rightarrow> world \<Rightarrow> world" where
  "print l w = w\<lparr>stdout := stdout w @ [l]\<rparr>"

section \<open>The debounce engine: class DebounceInput\<close>

definition DebounceInput_init :: "real \<Rightarrow> real \<Rightarrow> debounce_input" where
  "DebounceInput_init delay0 short_delay0 =
     \<lparr>queue = [], short_queue = [], recent_release = None, delay = delay0,
      short_delay = short_delay0, no_input_registered = False\<rparr>"

text \<open>\<^verbatim>\<open>input_processor = DebounceInput()\<close>, with the defaults of the constructor.\<close>

definition DebounceInput_default :: debounce_input where
  "DebounceInput_default = DebounceInput_init 0.15 0.09"

definition key_down :: "key \<Rightarrow> bool \<Rightarrow> hid_keyboard \<Rightarrow> hid_keyboard" where
  "key_down value shift_escape kb =
     (let kb1 = (if shift_escape then key_release (Code Keycode_SHIFT) kb else kb);
          kb2 = (case value of
                   Shifted k \<Rightarrow>
                     key_release (Code Keycode_SHIFT)
                       (key_press (Code k) (key_press (Code Keycode_SHIFT) kb1))
                 | _ \<Rightarrow> key_press value kb1)
      in if shift_escape then key_press (Code Keycode_SHIFT) kb2 else kb2)"

definition key_up :: "key \<Rightarrow> hid_keyboard \<Rightarrow> hid_keyboard" where
  "key_up value kb =
     (case value of
        Shifted k \<Rightarrow> key_release (Code k) (key_release (Code Keycode_SHIFT) kb)
      | _ \<Rightarrow> key_release value kb)"

text \<open>
  \<^verbatim>\<open>input(value, shift)\<close>; \<open>now\<close> is the reading of the clock at the start of the call. A
  new key goes to the end of the dictionary.
\<close>

definition input :: "real \<Rightarrow> key \<Rightarrow> bool \<Rightarrow> world \<Rightarrow> world" where
  "input now value shift w =
     (let w1 = w\<lparr>input_processor := (input_processor w)\<lparr>no_input_registered := False\<rparr>\<rparr>;
          (value1, shift_escape) =
            (case value of
               AltShift k alt_key \<Rightarrow>
                 if shift_down (bbc_keyboard w1) then (alt_key, True) else (k, False)
             | _ \<Rightarrow> (value, False));
          w2 = (if shift \<and> value1 = Code Keycode_BACKSPACE then print ShiftBreak w1 else w1)
      in if value1 \<notin> fst ` set (queue (input_processor w2))
         then w2\<lparr>bbc_keyboard := key_down value1 shift_escape (bbc_keyboard w2),
                 input_processor :=
                   (input_processor w2)\<lparr>queue := queue (input_processor w2) @ [(value1, now)]\<rparr>\<rparr>
         else w2)"

definition no_input :: "world \<Rightarrow> world" where
  "no_input w = w\<lparr>input_processor := (input_processor w)\<lparr>no_input_registered := True\<rparr>\<rparr>"

text \<open>\<^verbatim>\<open>del self.queue[k]\<close>.\<close>

definition dict_del :: "key \<Rightarrow> (key \<times> real) list \<Rightarrow> (key \<times> real) list" where
  "dict_del k q = filter (\<lambda>kv. fst kv \<noteq> k) q"

text \<open>
  The body of the loop of \<^verbatim>\<open>check\<close>, for the item \<open>(k, v)\<close> (lines 207 to 216). The
  halving \<^verbatim>\<open>self.delay / 2\<close> and the sum \<^verbatim>\<open>v + delay\<close> are float operations: their exact
  results are rounded by \<open>fl\<close>.
\<close>

definition check_body :: "(real \<Rightarrow> real) \<Rightarrow> real \<Rightarrow> key \<times> real \<Rightarrow> world \<Rightarrow> world" where
  "check_body fl current_time kv w =
     (let k = fst kv; v = snd kv; self = input_processor w;
          delay0 = (if no_input_registered self then fl (delay self / 2) else delay self);
          delay1 = (if Some k = recent_release self then short_delay self else delay0)
      in if fl (v + delay1) < current_time
         then w\<lparr>bbc_keyboard := key_up k (bbc_keyboard w),
                 input_processor := self\<lparr>recent_release := Some k, queue := dict_del k (queue self)\<rparr>\<rparr>
         else w)"

text \<open>
  \<^verbatim>\<open>for k, v in self.queue.items()\<close> steps a dictionary iterator. The script runs on
  CircuitPython, whose dictionary is a hash table and whose iterator is a cursor into the
  table: a step yields the next filled slot after the cursor and moves the cursor behind
  it; the size of the dictionary is not checked, and nothing is raised when it changes.
  \<^verbatim>\<open>del self.queue[k]\<close> empties the slot of \<open>k\<close> and moves no other entry, so the slots
  behind the cursor are the same before and after the deletion of the item just yielded.

  On the list of the items in the order of their slots: the item yielded is the one at the
  index \<open>pos\<close>; when the body has deleted it, the items behind it have moved down by one and
  the next item is again at \<open>pos\<close>; otherwise it is at \<open>pos + 1\<close>. The loop ends when the
  cursor is behind the last item.
\<close>

function check_loop :: "(real \<Rightarrow> real) \<Rightarrow> real \<Rightarrow> nat \<Rightarrow> world \<Rightarrow> world" where
  "check_loop fl current_time pos w =
     (if pos < length (queue (input_processor w))
      then
        (let w' = check_body fl current_time (queue (input_processor w) ! pos) w
         in check_loop fl current_time
              (if length (queue (input_processor w')) = length (queue (input_processor w))
               then Suc pos else pos)
              w')
      else w)"
  by pat_completeness auto
termination
proof (relation "measure (\<lambda>(fl, t, pos, w). length (queue (input_processor w)) - pos)")
  show "wf (measure (\<lambda>(fl, t, pos, w). length (queue (input_processor w)) - pos))"
    by simp
next
  fix fl :: "real \<Rightarrow> real" and current_time :: real and pos :: nat and w w' :: world
  assume pos: "pos < length (queue (input_processor w))"
    and w': "w' = check_body fl current_time (queue (input_processor w) ! pos) w"
  have "length (queue (input_processor w')) \<le> length (queue (input_processor w))"
    unfolding w' by (simp add: check_body_def Let_def dict_del_def)
  with pos
  show "((fl, current_time,
          if length (queue (input_processor w')) = length (queue (input_processor w))
          then Suc pos else pos, w'),
         (fl, current_time, pos, w))
        \<in> measure (\<lambda>(fl, t, pos, w). length (queue (input_processor w)) - pos)"
    by auto
qed

definition check :: "(real \<Rightarrow> real) \<Rightarrow> real \<Rightarrow> world \<Rightarrow> world" where
  "check fl current_time w = check_loop fl current_time 0 w"

section \<open>The key table\<close>

text \<open>
  \<^verbatim>\<open>keys\<close> is a dictionary of eight row dictionaries, filled by the assignments below, in the
  order of the source; no coordinate is assigned twice. \<^verbatim>\<open>keys[row][column]\<close> raises
  \<^verbatim>\<open>KeyError\<close> for a row outside 0..7 or a column the row does not have; \<^verbatim>\<open>process\<close>
  catches it and takes \<^verbatim>\<open>None\<close>, the result \<open>None\<close> of the lookup here.
\<close>

definition keys_items :: "((nat \<times> nat) \<times> key) list" where
  "keys_items =
     [((2, 0), Code Keycode_F1),
      ((7, 1), Code Keycode_F2),
      ((7, 2), Code Keycode_F3),
      ((7, 3), Code Keycode_F4),
      ((1, 4), Code Keycode_F5),
      ((7, 4), Code Keycode_F6),
      ((7, 5), Code Keycode_F7),
      ((1, 6), Code Keycode_F8),
      ((7, 6), Code Keycode_F9),
      ((7, 7), Code Keycode_F10),
      ((7, 0), Code Keycode_ESCAPE),
      ((3, 0), Code Keycode_ONE),
      ((3, 1), Code Keycode_TWO),
      ((1, 1), AltShift (Code Keycode_THREE) (Code Keycode_POUND)),
      ((1, 2), Code Keycode_FOUR),
      ((1, 3), Code Keycode_FIVE),
      ((3, 4), AltShift (Code Keycode_SIX) (Shifted Keycode_SEVEN)),
      ((2, 4), AltShift (Code Keycode_SEVEN) (Code Keycode_QUOTE)),
      ((1, 5), AltShift (Code Keycode_EIGHT) (Shifted Keycode_NINE)),
      ((2, 6), AltShift (Code Keycode_NINE) (Shifted Keycode_ZERO)),
      ((2, 7), Code Keycode_ZERO),
      ((1, 7), AltShift (Code Keycode_MINUS) (Code Keycode_EQUALS)),
      ((1, 8), AltShift (Shifted Keycode_SIX) (Shifted Keycode_POUND)),
      ((7, 8), Code Keycode_BACKSLASH),
      ((1, 9), Code Keycode_LEFT_ARROW),
      ((7, 9), Code Keycode_RIGHT_ARROW),
      ((6, 0), Code Keycode_TAB),
      ((1, 0), Code Keycode_Q),
      ((2, 1), Code Keycode_W),
      ((2, 2), Code Keycode_E),
      ((3, 3), Code Keycode_R),
      ((2, 3), Code Keycode_T),
      ((4, 4), Code Keycode_Y),
      ((3, 5), Code Keycode_U),
      ((2, 5), Code Keycode_I),
      ((3, 6), Code Keycode_O),
      ((3, 7), Code Keycode_P),
      ((4, 7), Shifted Keycode_QUOTE),
      ((3, 8), Code Keycode_LEFT_BRACKET),
      ((2, 8), AltShift (Shifted Keycode_MINUS) (Shifted Keycode_THREE)),
      ((3, 9), Code Keycode_UP_ARROW),
      ((2, 9), Code Keycode_DOWN_ARROW),
      ((4, 0), Code Keycode_CAPS_LOCK),
      ((0, 1), Code Keycode_LEFT_CONTROL),
      ((4, 1), Code Keycode_A),
      ((5, 1), Code Keycode_S),
      ((3, 2), Code Keycode_D),
      ((4, 3), Code Keycode_F),
      ((5, 3), Code Keycode_G),
      ((5, 4), Code Keycode_H),
      ((4, 5), Code Keycode_J),
      ((4, 6), Code Keycode_K),
      ((5, 6), Code Keycode_L),
      ((5, 7), AltShift (Code Keycode_SEMICOLON) (Shifted Keycode_EQUALS)),
      ((4, 8), AltShift (Code Keycode_KEYPAD_ASTERISK) (Shifted Keycode_SEMICOLON)),
      ((5, 8), Code Keycode_RIGHT_BRACKET),
      ((4, 9), Code Keycode_RETURN),
      ((5, 0), Code Keycode_ALT),
      ((0, 0), Code Keycode_SHIFT),
      ((6, 1), Code Keycode_Z),
      ((4, 2), Code Keycode_X),
      ((5, 2), Code Keycode_C),
      ((6, 3), Code Keycode_V),
      ((6, 4), Code Keycode_B),
      ((5, 5), Code Keycode_N),
      ((6, 5), Code Keycode_M),
      ((6, 6), Code Keycode_COMMA),
      ((6, 7), Code Keycode_PERIOD),
      ((6, 8), Code Keycode_FORWARD_SLASH),
      ((5, 9), Code Keycode_DELETE),
      ((6, 9), Code Keycode_WINDOWS),
      ((6, 2), Code Keycode_SPACEBAR)]"

definition keys :: "nat \<Rightarrow> nat \<Rightarrow> key option" where
  "keys row column = map_of keys_items (row, column)"

text \<open>
  Truth value of a looked-up entry in \<^verbatim>\<open>if keycode:\<close>: an integer is true when it is not
  zero, an instance of a class without \<^verbatim>\<open>__bool__\<close> and \<^verbatim>\<open>__len__\<close> is true.
\<close>

fun truthy :: "key \<Rightarrow> bool" where
  "truthy (Code c) = (c \<noteq> Keycode 0)"
| "truthy (Shifted c) = True"
| "truthy (AltShift k a) = True"

section \<open>Binary encoding: int\_to\_bin\<close>

text \<open>
  \<^verbatim>\<open>"{:0{0}b}".replace("{0}", str(max))\<close> is the format string \<^verbatim>\<open>{:0<max>b}\<close>: the binary
  digits of the number, most significant first, filled with zeros on the left up to the width
  \<^verbatim>\<open>max\<close> (\<open>max_bits\<close> below) and never cut. \<open>bin_digits\<close> is \<^verbatim>\<open>format(v, "b")\<close> for a number that is not
  negative. A negative number is formatted with a leading minus sign, on which \<^verbatim>\<open>int(x)\<close>
  raises \<^verbatim>\<open>ValueError\<close>.
\<close>

fun bin_digits :: "nat \<Rightarrow> string" where
  "bin_digits n =
     (if n < 2 then [if n = 0 then CHR ''0'' else CHR ''1'']
      else bin_digits (n div 2) @ [if n mod 2 = 0 then CHR ''0'' else CHR ''1''])"

declare bin_digits.simps [simp del]

definition format_0b :: "nat \<Rightarrow> nat \<Rightarrow> string" where
  "format_0b v width = replicate (width - length (bin_digits v)) CHR ''0'' @ bin_digits v"

definition int_to_bin :: "int \<Rightarrow> nat \<Rightarrow> py_error + bool list" where
  "int_to_bin v max_bits =
     (if v < 0 then Inl ValueError
      else Inr (map (\<lambda>x. x \<noteq> CHR ''0'') (format_0b (nat v) max_bits)))"

section \<open>Output pins: class Output\<close>

definition pin_write :: "pin \<Rightarrow> bool \<Rightarrow> world \<Rightarrow> world" where
  "pin_write p b w =
     w\<lparr>pin_value := (pin_value w)(p := b), pin_writes := pin_writes w @ [(p, b)]\<rparr>"

text \<open>\<^verbatim>\<open>Output.set\<close> for an output on pin \<open>p\<close> constructed with \<open>reverse\<close>.\<close>

definition Output_set :: "pin \<Rightarrow> bool \<Rightarrow> bool \<Rightarrow> world \<Rightarrow> world" where
  "Output_set p reverse value w = pin_write p (if value then \<not> reverse else reverse) w"

definition set_on :: "pin \<Rightarrow> bool \<Rightarrow> world \<Rightarrow> world" where
  "set_on p reverse w = Output_set p reverse True w"

definition set_off :: "pin \<Rightarrow> bool \<Rightarrow> world \<Rightarrow> world" where
  "set_off p reverse w = Output_set p reverse False w"

text \<open>
  \<^verbatim>\<open>HIDKeyboard.align_leds\<close>: \<open>led_on\<close> is what the host reports for the caps-lock LED;
  \<^verbatim>\<open>LED.caps_lock\<close> is \<^verbatim>\<open>Output(board.GP15, reverse=True)\<close>.
\<close>

definition align_leds :: "bool \<Rightarrow> world \<Rightarrow> world" where
  "align_leds led_on w = Output_set GP15 True led_on w"

section \<open>The software scan: class SoftwareScan\<close>

definition row_pins :: "pin list" where
  "row_pins = [GP5, GP4, GP3]"

definition col_pins :: "pin list" where
  "col_pins = [GP9, GP8, GP7, GP6]"

record software_scan =
  r_opts :: "bool list list"
  c_opts :: "bool list list"
  col_with_options :: "(nat \<times> (pin \<times> bool) list) list"
  row_with_options :: "(nat \<times> (pin \<times> bool) list) list"

text \<open>A list comprehension over calls that may raise: the first error ends it.\<close>

fun collect :: "(py_error + 'a) list \<Rightarrow> py_error + 'a list" where
  "collect [] = Inr []"
| "collect (x # xs) =
     (case x of
        Inl e \<Rightarrow> Inl e
      | Inr y \<Rightarrow> (case collect xs of Inl e \<Rightarrow> Inl e | Inr ys \<Rightarrow> Inr (y # ys)))"

definition part_zip :: "pin list \<Rightarrow> bool list list \<Rightarrow> (pin \<times> bool) list list" where
  "part_zip pins options = map (\<lambda>o'. zip pins o') options"

definition SoftwareScan_init :: "py_error + software_scan" where
  "SoftwareScan_init =
     (let col_pin_count = length col_pins; row_pin_count = length row_pins
      in case collect (map (\<lambda>x. int_to_bin (int x) row_pin_count) [0..<2 ^ row_pin_count]) of
           Inl e \<Rightarrow> Inl e
         | Inr r \<Rightarrow>
            (case collect (map (\<lambda>x. int_to_bin (int x) col_pin_count) [0..<2 ^ col_pin_count]) of
               Inl e \<Rightarrow> Inl e
             | Inr c \<Rightarrow>
                 Inr \<lparr>r_opts = r, c_opts = c,
                      col_with_options = enumerate 0 (part_zip col_pins c),
                      row_with_options = enumerate 0 (part_zip row_pins r)\<rparr>))"

text \<open>
  \<^verbatim>\<open>process(row, column)\<close>; \<open>now\<close> is the clock reading of the call of \<^verbatim>\<open>input\<close> it may
  make. The line it prints is kept as the coordinate and the entry found.
\<close>

definition process :: "real \<Rightarrow> nat \<Rightarrow> nat \<Rightarrow> world \<Rightarrow> world" where
  "process now row column w =
     (let keycode = keys row column;
          w1 = print (ProcessLine row column keycode) w
      in case keycode of
           None \<Rightarrow> w1
         | Some kc \<Rightarrow> if truthy kc then input now kc False w1 else w1)"

text \<open>\<^verbatim>\<open>for pin, value in pin_opts: pin.output.value = value\<close>.\<close>

definition set_pins :: "(pin \<times> bool) list \<Rightarrow> world \<Rightarrow> world" where
  "set_pins pin_opts w = fold (\<lambda>pv. pin_write (fst pv) (snd pv)) pin_opts w"

text \<open>
  The sense line \<^verbatim>\<open>w_line\<close> is an input: what it reads is decided by the keyboard
  hardware. \<open>w_line\<close> below gives the reading as a function of the levels of the output pins
  at the moment of the read. \<open>now_at rx cx\<close> is the clock reading of the \<^verbatim>\<open>input\<close> call
  made for the cell \<open>(rx, cx)\<close>.

  The body of the inner loop of \<^verbatim>\<open>SoftwareScan.check\<close>, for the row item \<open>rxo\<close>, in
  column \<open>cx\<close>:
\<close>

definition check_row ::
  "((pin \<Rightarrow> bool) \<Rightarrow> bool) \<Rightarrow> (nat \<Rightarrow> nat \<Rightarrow> real) \<Rightarrow> nat \<Rightarrow> nat \<times> (pin \<times> bool) list
     \<Rightarrow> world \<Rightarrow> world" where
  "check_row w_line now_at cx rxo w =
     (let rx = fst rxo;
          w1 = set_pins (snd rxo) w;
          w2 = pin_write GP1 False w1;
          w3 = pin_write GP1 True w2
      in if w_line (pin_value w3) then process (now_at rx cx) rx cx w3 else w3)"

text \<open>The body of the outer loop, for the column item \<open>cxo\<close>.\<close>

definition check_column ::
  "software_scan \<Rightarrow> ((pin \<Rightarrow> bool) \<Rightarrow> bool) \<Rightarrow> (nat \<Rightarrow> nat \<Rightarrow> real)
     \<Rightarrow> nat \<times> (pin \<times> bool) list \<Rightarrow> world \<Rightarrow> world" where
  "check_column self w_line now_at cxo w =
     fold (check_row w_line now_at (fst cxo)) (row_with_options self) (set_pins (snd cxo) w)"

definition SoftwareScan_check ::
  "software_scan \<Rightarrow> ((pin \<Rightarrow> bool) \<Rightarrow> bool) \<Rightarrow> (nat \<Rightarrow> nat \<Rightarrow> real) \<Rightarrow> world \<Rightarrow> world" where
  "SoftwareScan_check self w_line now_at w =
     pin_write GP2 True
       (fold (check_column self w_line now_at) (col_with_options self) (pin_write GP2 False w))"

definition check_shift :: "((pin \<Rightarrow> bool) \<Rightarrow> bool) \<Rightarrow> world \<Rightarrow> bool \<times> world" where
  "check_shift w_line w =
     (let w1 = pin_write GP2 False w;
          w2 = fold (\<lambda>p. pin_write p False) col_pins w1;
          w3 = fold (\<lambda>p. pin_write p False) row_pins w2;
          w4 = pin_write GP1 False w3;
          w5 = pin_write GP1 True w4;
          value = w_line (pin_value w5)
      in (value, pin_write GP2 True w5))"

section \<open>The hardware scan: class HardwareScan\<close>

text \<open>
  \<^verbatim>\<open>HardwareScan.check(trigger_func, absence_func)\<close>. \<open>tripped\<close> is the reading of the
  interrupt line (\<^verbatim>\<open>HardwareScan.interrupt.tripped()\<close>); \<^verbatim>\<open>HardwareScan.clock\<close> is
  \<^verbatim>\<open>Output(board.GP1)\<close>, not reversed.
\<close>

definition HardwareScan_check ::
  "bool \<Rightarrow> bool \<Rightarrow> (world \<Rightarrow> world) \<Rightarrow> (world \<Rightarrow> world) \<Rightarrow> world \<Rightarrow> world" where
  "HardwareScan_check tripped led_on trigger_func absence_func w =
     (let w1 =
            (if tripped
             then (trigger_func (set_off GP1 False w))\<lparr>absence_count := 0\<rparr>
             else
               (let w' = w\<lparr>absence_count := absence_count w + 1\<rparr>
                in if absence_count w' > 100
                   then (absence_func w')\<lparr>absence_count := 0\<rparr>
                   else w'));
          w2 = set_off GP1 False w1;
          w3 = set_on GP1 False w2
      in align_leds led_on w3)"

section \<open>The break button: class BreakButtonProcessor\<close>

text \<open>
  \<^verbatim>\<open>Debouncer\<close> belongs to the \<^verbatim>\<open>adafruit_debouncer\<close> library. \<^verbatim>\<open>self.switch.update()\<close>
  samples the pin and moves the debouncer to a new debounced level; \<open>debounced\<close> is that
  level, \<open>raw\<close> is the level of the pin itself, read by \<^verbatim>\<open>self.input.tripped()\<close>. The
  label of the one \<^verbatim>\<open>break_button\<close> is \<^verbatim>\<open>Keycode.BACKSPACE\<close>.
\<close>

definition BreakButtonProcessor_check ::
  "bool \<Rightarrow> bool \<Rightarrow> ((pin \<Rightarrow> bool) \<Rightarrow> bool) \<Rightarrow> real \<Rightarrow> world \<Rightarrow> world" where
  "BreakButtonProcessor_check debounced raw w_line now w =
     (let w1 = w\<lparr>switch_value := debounced\<rparr>
      in if \<not> raw
         then (let (shift, w2) = check_shift w_line w1
               in input now (Code Keycode_BACKSPACE) shift w2)
         else w1)"

section \<open>Start of the program\<close>

text \<open>
  The module-level objects as their constructors leave them when the main loop starts:
  nothing pending, nothing sent, nothing printed, the default delays.
  \<^verbatim>\<open>BBCKeyboardInterface(hardware_scan=True)\<close> has switched \<^verbatim>\<open>kb_en\<close> (GP2) on and the three
  reversed case LEDs (GP13, GP14, GP15) off, which is the high level for them; the record of
  pin writes starts with the main loop. The break button is up (its line is pulled high).
\<close>

definition world_init :: world where
  "world_init =
     \<lparr>bbc_keyboard = HIDKeyboard_init,
      input_processor = DebounceInput_default,
      stdout = [],
      pin_value = (\<lambda>p. p \<in> {GP2, GP13, GP14, GP15}),
      pin_writes = [],
      absence_count = 0,
      switch_value = True\<rparr>"

text \<open>\<^verbatim>\<open>bbc.ss = SoftwareScan()\<close>: the object the constructor returns.\<close>

definition bbc_ss :: software_scan where
  "bbc_ss = projr SoftwareScan_init"


section \<open>Notions of the specification\<close>

text \<open>
  The dwell of a pending key as the specification words it: the short delay for the key
  released last, otherwise half the delay (a float division) when the no-input flag is set,
  otherwise the delay.
\<close>

definition dwell_spec :: "(real \<Rightarrow> real) \<Rightarrow> debounce_input \<Rightarrow> key \<Rightarrow> real" where
  "dwell_spec fl self k =
     (if recent_release self = Some k then short_delay self
      else if no_input_registered self then fl (delay self / 2)
      else delay self)"

text \<open>
  The rounding that has nothing to round. It is the rounding of the interpreter wherever the
  exact result of the operation is a float: the sum of 0 and a float, the half of a float.
\<close>

definition exact :: "real \<Rightarrow> real" where
  "exact x = x"

text \<open>
  The states of the program in which the pending map can be: it is empty when the engine is
  constructed, and only the three methods \<^verbatim>\<open>input\<close>, \<^verbatim>\<open>no_input\<close> and \<^verbatim>\<open>check\<close> touch
  the engine afterwards.
\<close>

inductive reachable :: "world \<Rightarrow> bool" where
  start: "queue (input_processor w) = [] \<Longrightarrow> reachable w"
| after_input: "reachable w \<Longrightarrow> reachable (input now v shift w)"
| after_no_input: "reachable w \<Longrightarrow> reachable (no_input w)"
| after_check: "reachable w \<Longrightarrow> reachable (check fl t w)"

text \<open>
  The number a list of bits stands for when the first bit is the most significant one.
\<close>

definition be_value :: "bool list \<Rightarrow> nat" where
  "be_value bs = foldl (\<lambda>acc b. 2 * acc + (if b then 1 else 0)) 0 bs"

text \<open>
  The list \<^verbatim>\<open>int_to_bin\<close> returns for a number that is not negative (lemma
  \<open>int_to_bin_encoding\<close>).
\<close>

definition encoding :: "nat \<Rightarrow> nat \<Rightarrow> bool list" where
  "encoding v n = map (\<lambda>x. x \<noteq> CHR ''0'') (format_0b v n)"

text \<open>
  Environments for the sense line. \<open>no_key\<close>: no key is down, the line is never asserted.
  \<open>only_key row column\<close>: the key at \<open>(row, column)\<close> alone is down, so that the line is
  asserted exactly when the column-select pins carry \<^verbatim>\<open>int_to_bin(column, 4)\<close> and the
  row-select pins carry \<^verbatim>\<open>int_to_bin(row, 3)\<close>. \<open>at_zero\<close>: a clock that reads 0 throughout a
  sweep.
\<close>

definition no_key :: "(pin \<Rightarrow> bool) \<Rightarrow> bool" where
  "no_key lv = False"

definition at_zero :: "nat \<Rightarrow> nat \<Rightarrow> real" where
  "at_zero rx cx = 0"

definition only_key :: "nat \<Rightarrow> nat \<Rightarrow> (pin \<Rightarrow> bool) \<Rightarrow> bool" where
  "only_key row column lv =
     (int_to_bin (int column) 4 = Inr (map lv col_pins)
      \<and> int_to_bin (int row) 3 = Inr (map lv row_pins))"

text \<open>The codes wrapped by the \<^verbatim>\<open>Shifted\<close> objects inside a table entry.\<close>

fun shifted_codes :: "key \<Rightarrow> keycode list" where
  "shifted_codes (Code c) = []"
| "shifted_codes (Shifted c) = [c]"
| "shifted_codes (AltShift k a) = shifted_codes k @ shifted_codes a"

section \<open>Properties of the HID wrapper\<close>

declare check_loop.simps [simp del]

lemma sent_key_press: "sent (key_press v kb) = sent kb @ [Press v]"
  by (simp add: key_press_def Let_def)

lemma sent_key_release: "sent (key_release v kb) = sent kb @ [Release v]"
  by (simp add: key_release_def Let_def)

lemma shift_down_key_press:
  "shift_down (key_press v kb) = (v = Code Keycode_SHIFT \<or> shift_down kb)"
  by (simp add: key_press_def Let_def)

lemma shift_down_key_release:
  "shift_down (key_release v kb) = (v \<noteq> Code Keycode_SHIFT \<and> shift_down kb)"
  by (simp add: key_release_def Let_def)

lemmas hid_simps = sent_key_press sent_key_release shift_down_key_press shift_down_key_release

lemma sent_key_down:
  "sent (key_down v esc kb) =
     sent kb @ (if esc then [Release (Code Keycode_SHIFT)] else [])
       @ (case v of
            Shifted c \<Rightarrow> [Press (Code Keycode_SHIFT), Press (Code c), Release (Code Keycode_SHIFT)]
          | _ \<Rightarrow> [Press v])
       @ (if esc then [Press (Code Keycode_SHIFT)] else [])"
  by (simp add: key_down_def Let_def hid_simps split: key.splits)

lemma shift_down_key_down_escape: "shift_down (key_down v True kb)"
  by (simp add: key_down_def Let_def hid_simps split: key.splits)

lemma sent_key_up:
  "sent (key_up v kb) =
     sent kb @ (case v of
                  Shifted c \<Rightarrow> [Release (Code Keycode_SHIFT), Release (Code c)]
                | _ \<Rightarrow> [Release v])"
  by (simp add: key_up_def hid_simps split: key.splits)

section \<open>Properties of the debounce engine\<close>

text \<open>
  Claim C1. When \<^verbatim>\<open>input\<close> receives an \<^verbatim>\<open>AltShift\<close> key while the wrapper holds shift down,
  and the alternate key is not pending, the sink receives the release of shift, then the press
  sequence of the alternate key (press shift, press the code, release shift when the alternate
  is \<^verbatim>\<open>Shifted\<close>; the press of the key otherwise), then the press of shift; the shift state of
  the wrapper after the call is the one before it. The table has
  \<^verbatim>\<open>AltShift(SIX, Shifted(SEVEN))\<close> at row 3, column 4, and for it the five events are release
  shift, press shift, press SEVEN, release shift, press shift.
\<close>

theorem input_AltShift_escape:
  assumes "shift_down (bbc_keyboard w)"
    and "alt \<notin> fst ` set (queue (input_processor w))"
  shows "sent (bbc_keyboard (input now (AltShift k alt) shift w)) =
           sent (bbc_keyboard w) @ [Release (Code Keycode_SHIFT)]
             @ (case alt of
                  Shifted c \<Rightarrow>
                    [Press (Code Keycode_SHIFT), Press (Code c), Release (Code Keycode_SHIFT)]
                | _ \<Rightarrow> [Press alt])
             @ [Press (Code Keycode_SHIFT)]
         \<and> shift_down (bbc_keyboard (input now (AltShift k alt) shift w)) =
             shift_down (bbc_keyboard w)
         \<and> keys 3 4 = Some (AltShift (Code Keycode_SIX) (Shifted Keycode_SEVEN))
         \<and> (alt = Shifted Keycode_SEVEN \<longrightarrow>
              sent (bbc_keyboard (input now (AltShift k alt) shift w)) =
                sent (bbc_keyboard w) @
                  [Release (Code Keycode_SHIFT), Press (Code Keycode_SHIFT),
                   Press (Code Keycode_SEVEN), Release (Code Keycode_SHIFT),
                   Press (Code Keycode_SHIFT)])"
proof -
  have k: "keys 3 4 = Some (AltShift (Code Keycode_SIX) (Shifted Keycode_SEVEN))"
    by (simp add: keys_def keys_items_def)
  have s: "sent (bbc_keyboard (input now (AltShift k alt) shift w)) =
           sent (bbc_keyboard w) @ [Release (Code Keycode_SHIFT)]
             @ (case alt of
                  Shifted c \<Rightarrow>
                    [Press (Code Keycode_SHIFT), Press (Code c), Release (Code Keycode_SHIFT)]
                | _ \<Rightarrow> [Press alt])
             @ [Press (Code Keycode_SHIFT)]"
    using assms by (auto simp add: input_def Let_def print_def sent_key_down)
  have d: "shift_down (bbc_keyboard (input now (AltShift k alt) shift w))"
    using assms by (auto simp add: input_def Let_def print_def shift_down_key_down_escape)
  have d': "shift_down (bbc_keyboard (input now (AltShift k alt) shift w)) =
             shift_down (bbc_keyboard w)"
    using d assms(1) by simp
  have e: "alt = Shifted Keycode_SEVEN \<longrightarrow>
              sent (bbc_keyboard (input now (AltShift k alt) shift w)) =
                sent (bbc_keyboard w) @
                  [Release (Code Keycode_SHIFT), Press (Code Keycode_SHIFT),
                   Press (Code Keycode_SEVEN), Release (Code Keycode_SHIFT),
                   Press (Code Keycode_SHIFT)]"
    using s by auto
  show ?thesis by (intro conjI s d' k e)
qed

text \<open>
  The table entry observed after shift itself has been pressed: the press of shift is followed
  by exactly the five events of the escape.
\<close>

theorem input_AltShift_escape_witness:
  "shift_down (bbc_keyboard (input 0 (Code Keycode_SHIFT) False world_init))
   \<and> Shifted Keycode_SEVEN \<notin>
       fst ` set (queue (input_processor (input 0 (Code Keycode_SHIFT) False world_init)))
   \<and> sent (bbc_keyboard
        (input 1 (AltShift (Code Keycode_SIX) (Shifted Keycode_SEVEN)) False
           (input 0 (Code Keycode_SHIFT) False world_init))) =
       [Press (Code Keycode_SHIFT), Release (Code Keycode_SHIFT), Press (Code Keycode_SHIFT),
        Press (Code Keycode_SEVEN), Release (Code Keycode_SHIFT), Press (Code Keycode_SHIFT)]"
proof -
  let ?w = "input 0 (Code Keycode_SHIFT) False world_init"
  have w: "bbc_keyboard ?w = \<lparr>sent = [Press (Code Keycode_SHIFT)], shift_down = True\<rparr>"
          "queue (input_processor ?w) = [(Code Keycode_SHIFT, 0)]"
    by (simp_all add: input_def Let_def world_init_def HIDKeyboard_init_def
          DebounceInput_default_def DebounceInput_init_def key_down_def key_press_def)
  have h1: "shift_down (bbc_keyboard ?w)" by (simp add: w)
  have h2: "Shifted Keycode_SEVEN \<notin> fst ` set (queue (input_processor ?w))" by (simp add: w)
  from input_AltShift_escape [OF h1 h2, of 1 "Code Keycode_SIX" False] h1 h2
  show ?thesis by (simp add: w)
qed


text \<open>
  Claim C2, as the code has it. \<^verbatim>\<open>input\<close> called with \<^verbatim>\<open>Keycode.BACKSPACE\<close> and the shift flag
  set prints its line and then treats the key like any other: the sink and the engine end as
  they do when the flag is not set; when the key is not pending its press is sent and it
  becomes pending, when it is pending nothing is sent.
\<close>

theorem input_break_with_shift:
  "stdout (input now (Code Keycode_BACKSPACE) True w) = stdout w @ [ShiftBreak]
   \<and> bbc_keyboard (input now (Code Keycode_BACKSPACE) False w) =
       bbc_keyboard (input now (Code Keycode_BACKSPACE) True w)
   \<and> input_processor (input now (Code Keycode_BACKSPACE) False w) =
       input_processor (input now (Code Keycode_BACKSPACE) True w)
   \<and> (Code Keycode_BACKSPACE \<notin> fst ` set (queue (input_processor w)) \<longrightarrow>
        sent (bbc_keyboard (input now (Code Keycode_BACKSPACE) True w)) =
          sent (bbc_keyboard w) @ [Press (Code Keycode_BACKSPACE)]
        \<and> queue (input_processor (input now (Code Keycode_BACKSPACE) True w)) =
          queue (input_processor w) @ [(Code Keycode_BACKSPACE, now)])
   \<and> (Code Keycode_BACKSPACE \<in> fst ` set (queue (input_processor w)) \<longrightarrow>
        bbc_keyboard (input now (Code Keycode_BACKSPACE) True w) = bbc_keyboard w
        \<and> queue (input_processor (input now (Code Keycode_BACKSPACE) True w)) =
          queue (input_processor w))"
  by (simp add: input_def Let_def print_def sent_key_down)

text \<open>At the start of the program the break key is not pending, and its press is sent.\<close>

theorem input_break_with_shift_witness:
  "Code Keycode_BACKSPACE \<notin> fst ` set (queue (input_processor world_init))
   \<and> stdout (input 0 (Code Keycode_BACKSPACE) True world_init) = [ShiftBreak]
   \<and> sent (bbc_keyboard (input 0 (Code Keycode_BACKSPACE) True world_init)) =
       [Press (Code Keycode_BACKSPACE)]
   \<and> queue (input_processor (input 0 (Code Keycode_BACKSPACE) True world_init)) =
       [(Code Keycode_BACKSPACE, 0)]"
proof -
  have q: "queue (input_processor world_init) = []" "sent (bbc_keyboard world_init) = []"
    "stdout world_init = []"
    by (simp_all add: world_init_def HIDKeyboard_init_def DebounceInput_default_def
          DebounceInput_init_def)
  from input_break_with_shift [of 0 world_init] show ?thesis by (simp add: q)
qed

text \<open>
  Against claim C2 as stated: nothing has been sent at the start, and the call with the shift
  flag set sends the press of \<^verbatim>\<open>Keycode.BACKSPACE\<close>.
\<close>

theorem input_break_with_shift_forwarded:
  "sent (bbc_keyboard world_init) = []
   \<and> sent (bbc_keyboard (input 0 (Code Keycode_BACKSPACE) True world_init)) =
       [Press (Code Keycode_BACKSPACE)]"
  by (simp add: input_def Let_def print_def key_down_def key_press_def world_init_def
        HIDKeyboard_init_def DebounceInput_default_def DebounceInput_init_def)

lemma check_body_config:
  "no_input_registered (input_processor (check_body fl t kv w)) =
     no_input_registered (input_processor w)"
  "delay (input_processor (check_body fl t kv w)) = delay (input_processor w)"
  "short_delay (input_processor (check_body fl t kv w)) = short_delay (input_processor w)"
  by (simp_all add: check_body_def Let_def)

lemma check_loop_config:
  "no_input_registered (input_processor (check_loop fl t p w)) =
     no_input_registered (input_processor w)
   \<and> delay (input_processor (check_loop fl t p w)) = delay (input_processor w)
   \<and> short_delay (input_processor (check_loop fl t p w)) = short_delay (input_processor w)"
proof (induction fl t p w rule: check_loop.induct)
  case (1 fl t p w)
  show ?case
  proof (cases "p < length (queue (input_processor w))")
    case True
    let ?w' = "check_body fl t (queue (input_processor w) ! p) w"
    let ?p' = "if length (queue (input_processor ?w')) = length (queue (input_processor w))
               then Suc p else p"
    from 1 [OF True refl]
    have ih: "no_input_registered (input_processor (check_loop fl t ?p' ?w')) =
                no_input_registered (input_processor ?w')
              \<and> delay (input_processor (check_loop fl t ?p' ?w')) = delay (input_processor ?w')
              \<and> short_delay (input_processor (check_loop fl t ?p' ?w')) =
                  short_delay (input_processor ?w')" .
    have "check_loop fl t p w = check_loop fl t ?p' ?w'"
      using True by (subst check_loop.simps) (simp add: Let_def)
    with ih show ?thesis by (simp add: check_body_config)
  next
    case False
    then show ?thesis by (subst check_loop.simps, simp)+
  qed
qed

lemma check_config:
  "no_input_registered (input_processor (check fl t w)) =
     no_input_registered (input_processor w)"
  "delay (input_processor (check fl t w)) = delay (input_processor w)"
  "short_delay (input_processor (check fl t w)) = short_delay (input_processor w)"
  by (simp_all add: check_def check_loop_config)

lemma checks_config:
  "no_input_registered (input_processor (fold (check fl) ts w)) =
     no_input_registered (input_processor w)
   \<and> delay (input_processor (fold (check fl) ts w)) = delay (input_processor w)
   \<and> short_delay (input_processor (fold (check fl) ts w)) = short_delay (input_processor w)"
  by (induction ts arbitrary: w) (simp_all add: check_config)

text \<open>
  Claim C10. \<^verbatim>\<open>no_input\<close> sets the flag, every call of \<^verbatim>\<open>input\<close> clears it, and \<^verbatim>\<open>check\<close>
  leaves it as it is. So after \<^verbatim>\<open>no_input\<close> the flag is still set after any number of
  calls of \<^verbatim>\<open>check\<close>, and the loop body of a later \<^verbatim>\<open>check\<close> releases a key that is not
  the recent release when half the delay has passed.
\<close>

theorem no_input_flag_cleared_only_by_input:
  "no_input_registered (input_processor (no_input w))
   \<and> \<not> no_input_registered (input_processor (input now v shift w))
   \<and> no_input_registered (input_processor (check fl t w)) =
       no_input_registered (input_processor w)
   \<and> no_input_registered (input_processor (fold (check fl) ts (no_input w)))
   \<and> recent_release
       (input_processor
          (check_body fl t' (k, observed_at) (fold (check fl) ts (no_input w)))) =
       (if fl (observed_at
                + (if Some k =
                        recent_release (input_processor (fold (check fl) ts (no_input w)))
                   then short_delay (input_processor w)
                   else fl (delay (input_processor w) / 2)))
            < t'
        then Some k
        else recent_release (input_processor (fold (check fl) ts (no_input w))))"
proof -
  have a: "no_input_registered (input_processor (no_input w))"
    "delay (input_processor (no_input w)) = delay (input_processor w)"
    "short_delay (input_processor (no_input w)) = short_delay (input_processor w)"
    by (simp_all add: no_input_def)
  have b: "\<not> no_input_registered (input_processor (input now v shift w))"
    by (simp add: input_def Let_def print_def split: key.splits prod.splits)
  show ?thesis
    using a b by (simp add: check_config checks_config check_body_def Let_def)
qed

section \<open>The loop of check\<close>

lemma check_body_cases:
  "check_body fl t (k, v) w =
     (if fl (v + dwell_spec fl (input_processor w) k) < t
      then w\<lparr>bbc_keyboard := key_up k (bbc_keyboard w),
              input_processor :=
                (input_processor w)\<lparr>recent_release := Some k,
                   queue := filter (\<lambda>kv. fst kv \<noteq> k) (queue (input_processor w))\<rparr>\<rparr>
      else w)"
  by (auto simp add: check_body_def dwell_spec_def dict_del_def Let_def)

lemma filter_other_keys:
  assumes "distinct (map fst q)" and "p < length q"
  shows "filter (\<lambda>kv. fst kv \<noteq> fst (q ! p)) q = take p q @ drop (Suc p) q"
proof -
  have q: "q = take p q @ q ! p # drop (Suc p) q"
    using assms(2) by (simp add: id_take_nth_drop)
  from assms(1) have d: "distinct (map fst (take p q @ q ! p # drop (Suc p) q))"
    using q by simp
  then have a: "\<forall>kv \<in> set (take p q). fst kv \<noteq> fst (q ! p)"
    and b: "\<forall>kv \<in> set (drop (Suc p) q). fst kv \<noteq> fst (q ! p)"
    by (force simp add: image_iff)+
  have "filter (\<lambda>kv. fst kv \<noteq> fst (q ! p)) (take p q @ q ! p # drop (Suc p) q) =
        take p q @ drop (Suc p) q"
    using a b by simp
  with q show ?thesis by simp
qed

lemma check_loop_fold:
  assumes "distinct (map fst (queue (input_processor w)))"
    and "p \<le> length (queue (input_processor w))"
  shows "check_loop fl t p w = fold (check_body fl t) (drop p (queue (input_processor w))) w"
  using assms
proof (induction "length (queue (input_processor w)) - p" arbitrary: p w)
  case 0
  then show ?case by (subst check_loop.simps) simp
next
  case (Suc n)
  let ?q = "queue (input_processor w)"
  from Suc.hyps(2) have p: "p < length ?q" by simp
  obtain k v where kv: "?q ! p = (k, v)" by (cases "?q ! p")
  have dr: "drop p ?q = (k, v) # drop (Suc p) ?q"
    using p kv by (metis Cons_nth_drop_Suc)
  let ?w' = "check_body fl t (k, v) w"
  show ?case
  proof (cases "fl (v + dwell_spec fl (input_processor w) k) < t")
    case True
    have fo: "filter (\<lambda>kv. fst kv \<noteq> k) ?q = take p ?q @ drop (Suc p) ?q"
      using filter_other_keys [OF Suc.prems(1) p] kv by simp
    with True have q': "queue (input_processor ?w') = take p ?q @ drop (Suc p) ?q"
      by (simp add: check_body_cases)
    from p have len: "length (queue (input_processor ?w')) \<noteq> length ?q"
      by (simp add: q')
    have dist: "distinct (map fst (queue (input_processor ?w')))"
      using Suc.prems(1) True by (simp add: check_body_cases distinct_map_filter)
    have n: "n = length (queue (input_processor ?w')) - p"
      using Suc.hyps(2) p by (simp add: q')
    have le: "p \<le> length (queue (input_processor ?w'))"
      using p by (simp add: q')
    have "check_loop fl t p w = check_loop fl t p ?w'"
      using p kv len by (subst check_loop.simps) (simp add: Let_def)
    also have "\<dots> = fold (check_body fl t) (drop p (queue (input_processor ?w'))) ?w'"
      by (rule Suc.hyps(1) [OF n dist le])
    also have "drop p (queue (input_processor ?w')) = drop (Suc p) ?q"
      using p by (simp add: q')
    finally show ?thesis by (simp add: dr)
  next
    case False
    then have same: "?w' = w" by (simp add: check_body_cases)
    have n: "n = length ?q - Suc p" using Suc.hyps(2) by simp
    have "check_loop fl t p w = check_loop fl t (Suc p) w"
      using p kv same by (subst check_loop.simps) (simp add: Let_def)
    also have "\<dots> = fold (check_body fl t) (drop (Suc p) ?q) w"
      using p by (intro Suc.hyps(1) [OF n Suc.prems(1)]) simp
    finally show ?thesis using same by (simp add: dr)
  qed
qed

lemma check_fold:
  "distinct (map fst (queue (input_processor w))) \<Longrightarrow>
     check fl t w = fold (check_body fl t) (queue (input_processor w)) w"
  using check_loop_fold [of w 0 fl t] by (simp add: check_def)

lemma check_body_member_other:
  "fst kv \<noteq> k \<Longrightarrow>
     ((k, v) \<in> set (queue (input_processor (check_body fl t kv w)))) =
     ((k, v) \<in> set (queue (input_processor w)))"
  by (cases kv) (auto simp add: check_body_cases)

lemma fold_check_body_member:
  "k \<notin> fst ` set xs \<Longrightarrow>
     ((k, v) \<in> set (queue (input_processor (fold (check_body fl t) xs w)))) =
     ((k, v) \<in> set (queue (input_processor w)))"
proof (induction xs arbitrary: w)
  case Nil
  then show ?case by simp
next
  case (Cons x xs)
  from Cons.prems have x: "fst x \<noteq> k" and xs: "k \<notin> fst ` set xs" by auto
  show ?case by (simp add: Cons.IH [OF xs] check_body_member_other [OF x])
qed

lemma fold_check_body_subset:
  "set (queue (input_processor (fold (check_body fl t) xs w))) \<subseteq>
     set (queue (input_processor w))"
proof (induction xs arbitrary: w)
  case Nil
  then show ?case by simp
next
  case (Cons x xs)
  have "set (queue (input_processor (check_body fl t x w))) \<subseteq> set (queue (input_processor w))"
    by (cases x) (auto simp add: check_body_cases)
  with Cons.IH [of "check_body fl t x w"] show ?case by auto
qed

lemma fold_check_body_config:
  "no_input_registered (input_processor (fold (check_body fl t) xs w)) =
     no_input_registered (input_processor w)
   \<and> delay (input_processor (fold (check_body fl t) xs w)) = delay (input_processor w)
   \<and> short_delay (input_processor (fold (check_body fl t) xs w)) =
       short_delay (input_processor w)"
  by (induction xs arbitrary: w) (simp_all add: check_body_config)

lemma fold_check_body_recent_release:
  "recent_release (input_processor (fold (check_body fl t) xs w)) =
     recent_release (input_processor w)
   \<or> recent_release (input_processor (fold (check_body fl t) xs w)) \<in> Some ` fst ` set xs"
proof (induction xs arbitrary: w)
  case Nil
  then show ?case by simp
next
  case (Cons x xs)
  have "recent_release (input_processor (check_body fl t x w)) =
          recent_release (input_processor w)
        \<or> recent_release (input_processor (check_body fl t x w)) = Some (fst x)"
    by (cases x) (simp add: check_body_cases)
  with Cons.IH [of "check_body fl t x w"] show ?case by auto
qed

lemma distinct_fold_check_body:
  "distinct (map fst (queue (input_processor w))) \<Longrightarrow>
     distinct (map fst (queue (input_processor (fold (check_body fl t) xs w))))"
proof (induction xs arbitrary: w)
  case Nil
  then show ?case by simp
next
  case (Cons x xs)
  from Cons.prems
  have "distinct (map fst (queue (input_processor (check_body fl t x w))))"
    by (cases x) (simp add: check_body_cases distinct_map_filter)
  then show ?case by (simp add: Cons.IH)
qed

lemma check_entry:
  assumes d: "distinct (map fst (queue (input_processor w)))"
    and q: "queue (input_processor w) = xs @ (k, v) # ys"
  shows "((k, v) \<in> set (queue (input_processor (check fl t w)))) =
         (\<not> fl (v + dwell_spec fl (input_processor (fold (check_body fl t) xs w)) k) < t)"
proof -
  let ?w1 = "fold (check_body fl t) xs w"
  let ?w2 = "check_body fl t (k, v) ?w1"
  from d q have kx: "k \<notin> fst ` set xs" and ky: "k \<notin> fst ` set ys" by auto
  have c: "check fl t w = fold (check_body fl t) ys ?w2"
    by (simp add: check_fold [OF d] q)
  have m1: "(k, v) \<in> set (queue (input_processor ?w1))"
    by (simp add: fold_check_body_member [OF kx] q)
  have m2: "((k, v) \<in> set (queue (input_processor ?w2))) =
            (\<not> fl (v + dwell_spec fl (input_processor ?w1) k) < t)"
    using m1 by (simp add: check_body_cases)
  show ?thesis
    unfolding c by (simp only: fold_check_body_member [OF ky] m2)
qed

lemma check_entry_not_recent:
  assumes d: "distinct (map fst (queue (input_processor w)))"
    and m: "(k, v) \<in> set (queue (input_processor w))"
    and r: "recent_release (input_processor w) \<noteq> Some k"
  shows "((k, v) \<in> set (queue (input_processor (check fl t w)))) =
         (\<not> fl (v + (if no_input_registered (input_processor w)
                        then fl (delay (input_processor w) / 2)
                        else delay (input_processor w))) < t)"
proof -
  from m obtain xs ys where q: "queue (input_processor w) = xs @ (k, v) # ys"
    by (auto simp add: in_set_conv_decomp)
  let ?w1 = "fold (check_body fl t) xs w"
  from d q have kx: "k \<notin> fst ` set xs" by auto
  have "recent_release (input_processor ?w1) \<noteq> Some k"
    using fold_check_body_recent_release [of fl t xs w] r kx by (force simp add: image_iff)
  then have "dwell_spec fl (input_processor ?w1) k =
               (if no_input_registered (input_processor w)
                then fl (delay (input_processor w) / 2)
                else delay (input_processor w))"
    by (simp add: dwell_spec_def fold_check_body_config)
  with check_entry [OF d q, of fl t] show ?thesis by simp
qed

lemma world_init_simps:
  "bbc_keyboard world_init = \<lparr>sent = [], shift_down = False\<rparr>"
  "input_processor world_init =
     \<lparr>queue = [], short_queue = [], recent_release = None, delay = 0.15,
      short_delay = 0.09, no_input_registered = False\<rparr>"
  "stdout world_init = []"
  "pin_writes world_init = []"
  "absence_count world_init = 0"
  by (simp_all add: world_init_def HIDKeyboard_init_def DebounceInput_default_def
        DebounceInput_init_def)

lemma input_plain_new:
  assumes "\<And>k a. v \<noteq> AltShift k a" and "v \<notin> fst ` set (queue (input_processor w))"
    and "v \<noteq> Code Keycode_BACKSPACE \<or> \<not> shift"
  shows "input now v shift w =
           w\<lparr>bbc_keyboard := key_down v False (bbc_keyboard w),
              input_processor :=
                (input_processor w)\<lparr>no_input_registered := False,
                   queue := queue (input_processor w) @ [(v, now)]\<rparr>\<rparr>"
  using assms by (cases v) (auto simp add: input_def Let_def)

lemma input_P_init:
  "bbc_keyboard (input 0 (Code Keycode_P) False world_init) =
     \<lparr>sent = [Press (Code Keycode_P)], shift_down = False\<rparr>"
  "input_processor (input 0 (Code Keycode_P) False world_init) =
     \<lparr>queue = [(Code Keycode_P, 0)], short_queue = [], recent_release = None, delay = 0.15,
      short_delay = 0.09, no_input_registered = False\<rparr>"
  by (simp_all add: input_plain_new world_init_simps key_down_def key_press_def)

lemma released_P_init:
  "bbc_keyboard (check_body exact 1 (Code Keycode_P, 0)
     (input 0 (Code Keycode_P) False world_init)) =
     \<lparr>sent = [Press (Code Keycode_P), Release (Code Keycode_P)], shift_down = False\<rparr>"
  "input_processor (check_body exact 1 (Code Keycode_P, 0)
     (input 0 (Code Keycode_P) False world_init)) =
     \<lparr>queue = [], short_queue = [], recent_release = Some (Code Keycode_P), delay = 0.15,
      short_delay = 0.09, no_input_registered = False\<rparr>"
  by (simp_all add: check_body_cases dwell_spec_def exact_def input_P_init key_up_def
        key_release_def)

lemma repressed_P:
  "bbc_keyboard (input 2 (Code Keycode_P) False
     (check_body exact 1 (Code Keycode_P, 0) (input 0 (Code Keycode_P) False world_init))) =
     \<lparr>sent = [Press (Code Keycode_P), Release (Code Keycode_P), Press (Code Keycode_P)],
      shift_down = False\<rparr>"
  "input_processor (input 2 (Code Keycode_P) False
     (check_body exact 1 (Code Keycode_P, 0) (input 0 (Code Keycode_P) False world_init))) =
     \<lparr>queue = [(Code Keycode_P, 2)], short_queue = [], recent_release = Some (Code Keycode_P),
      delay = 0.15, short_delay = 0.09, no_input_registered = False\<rparr>"
  by (simp_all add: input_plain_new released_P_init key_down_def key_press_def)

lemma no_input_P_init:
  "bbc_keyboard (no_input (input 0 (Code Keycode_P) False world_init)) =
     \<lparr>sent = [Press (Code Keycode_P)], shift_down = False\<rparr>"
  "input_processor (no_input (input 0 (Code Keycode_P) False world_init)) =
     \<lparr>queue = [(Code Keycode_P, 0)], short_queue = [], recent_release = None, delay = 0.15,
      short_delay = 0.09, no_input_registered = True\<rparr>"
  by (simp_all add: no_input_def input_P_init)

text \<open>
  Claim C3, as the code has it. For the item \<open>(k, observed_at)\<close> that the loop of \<^verbatim>\<open>check\<close>
  examines, the dwell is the short delay when \<open>k\<close> is the recent release, otherwise half the
  delay when the no-input flag is set, otherwise the delay (0.15 and 0.09 by default); the key
  is released (removed from the pending map, made the recent release, its up-event sent) when
  the float sum of \<open>observed_at\<close> and the dwell is less than \<open>now\<close>, strictly, and the state
  is left as it is otherwise. The sum and the halving are rounded by \<open>fl\<close>, whatever the
  rounding is.
\<close>

theorem check_body_expiry:
  "(fl (observed_at + dwell_spec fl (input_processor w) k) < now \<longrightarrow>
      queue (input_processor (check_body fl now (k, observed_at) w)) =
        filter (\<lambda>kv. fst kv \<noteq> k) (queue (input_processor w))
      \<and> recent_release (input_processor (check_body fl now (k, observed_at) w)) = Some k
      \<and> sent (bbc_keyboard (check_body fl now (k, observed_at) w)) =
          sent (bbc_keyboard w) @
            (case k of
               Shifted c \<Rightarrow> [Release (Code Keycode_SHIFT), Release (Code c)]
             | _ \<Rightarrow> [Release k]))
   \<and> (\<not> fl (observed_at + dwell_spec fl (input_processor w) k) < now \<longrightarrow>
        check_body fl now (k, observed_at) w = w)
   \<and> delay DebounceInput_default = 0.15
   \<and> short_delay DebounceInput_default = 0.09"
  by (simp add: check_body_cases sent_key_up DebounceInput_default_def DebounceInput_init_def)

text \<open>
  The three dwells with the default delays, at inputs where no float operation rounds for
  the first and the last (sums with 0, a halving). The key P observed at time 0: dwell 0.15,
  released by the body at time 1, kept at time 0.1. P released and observed again at time 2,
  so that it is the recent release: dwell 0.09, released at time 2.1. P observed at time 0 and
  the no-input flag set: dwell 0.075, released at time 0.1.
\<close>

theorem check_body_expiry_witness:
  "dwell_spec exact (input_processor (input 0 (Code Keycode_P) False world_init))
      (Code Keycode_P) = 0.15
   \<and> exact (0 + dwell_spec exact (input_processor (input 0 (Code Keycode_P) False world_init))
                 (Code Keycode_P)) < 1
   \<and> queue (input_processor
        (check_body exact 1 (Code Keycode_P, 0) (input 0 (Code Keycode_P) False world_init))) = []
   \<and> recent_release (input_processor
        (check_body exact 1 (Code Keycode_P, 0) (input 0 (Code Keycode_P) False world_init))) =
       Some (Code Keycode_P)
   \<and> sent (bbc_keyboard
        (check_body exact 1 (Code Keycode_P, 0) (input 0 (Code Keycode_P) False world_init))) =
       [Press (Code Keycode_P), Release (Code Keycode_P)]
   \<and> \<not> exact (0 + dwell_spec exact
                     (input_processor (input 0 (Code Keycode_P) False world_init))
                     (Code Keycode_P)) < 0.1
   \<and> check_body exact 0.1 (Code Keycode_P, 0) (input 0 (Code Keycode_P) False world_init) =
       input 0 (Code Keycode_P) False world_init
   \<and> dwell_spec exact
        (input_processor (input 2 (Code Keycode_P) False
           (check_body exact 1 (Code Keycode_P, 0)
              (input 0 (Code Keycode_P) False world_init))))
        (Code Keycode_P) = 0.09
   \<and> exact (2 + dwell_spec exact
        (input_processor (input 2 (Code Keycode_P) False
           (check_body exact 1 (Code Keycode_P, 0)
              (input 0 (Code Keycode_P) False world_init))))
        (Code Keycode_P)) < 2.1
   \<and> queue (input_processor
        (check_body exact 2.1 (Code Keycode_P, 2)
           (input 2 (Code Keycode_P) False
              (check_body exact 1 (Code Keycode_P, 0)
                 (input 0 (Code Keycode_P) False world_init))))) = []
   \<and> dwell_spec exact
        (input_processor (no_input (input 0 (Code Keycode_P) False world_init)))
        (Code Keycode_P) = 0.075
   \<and> exact (0 + dwell_spec exact
        (input_processor (no_input (input 0 (Code Keycode_P) False world_init)))
        (Code Keycode_P)) < 0.1
   \<and> queue (input_processor
        (check_body exact 0.1 (Code Keycode_P, 0)
           (no_input (input 0 (Code Keycode_P) False world_init)))) = []"
proof -
  let ?w = "input 0 (Code Keycode_P) False world_init"
  let ?s = "input 2 (Code Keycode_P) False (check_body exact 1 (Code Keycode_P, 0) ?w)"
  let ?h = "no_input ?w"
  have d: "dwell_spec exact (input_processor ?w) (Code Keycode_P) = 0.15"
    "dwell_spec exact (input_processor ?s) (Code Keycode_P) = 0.09"
    "dwell_spec exact (input_processor ?h) (Code Keycode_P) = 0.075"
    by (simp_all add: dwell_spec_def exact_def input_P_init repressed_P no_input_P_init)
  have h1: "exact (0 + dwell_spec exact (input_processor ?w) (Code Keycode_P)) < 1"
    and h2: "\<not> exact (0 + dwell_spec exact (input_processor ?w) (Code Keycode_P)) < 0.1"
    and h3: "exact (2 + dwell_spec exact (input_processor ?s) (Code Keycode_P)) < 2.1"
    and h4: "exact (0 + dwell_spec exact (input_processor ?h) (Code Keycode_P)) < 0.1"
    by (simp_all add: d exact_def)
  note a = check_body_expiry [of exact 0 ?w "Code Keycode_P" 1, THEN conjunct1, rule_format,
             OF h1]
  note b = check_body_expiry [of exact 0 ?w "Code Keycode_P" "0.1", THEN conjunct2,
             THEN conjunct1, rule_format, OF h2]
  note c = check_body_expiry [of exact 2 ?s "Code Keycode_P" "2.1", THEN conjunct1,
             rule_format, OF h3, THEN conjunct1]
  note e = check_body_expiry [of exact 0 ?h "Code Keycode_P" "0.1", THEN conjunct1,
             rule_format, OF h4, THEN conjunct1]
  have q: "queue (input_processor ?w) = [(Code Keycode_P, 0)]"
    "sent (bbc_keyboard ?w) = [Press (Code Keycode_P)]"
    "queue (input_processor ?s) = [(Code Keycode_P, 2)]"
    "queue (input_processor ?h) = [(Code Keycode_P, 0)]"
    by (simp_all add: input_P_init repressed_P no_input_P_init)
  from a have a': "queue (input_processor (check_body exact 1 (Code Keycode_P, 0) ?w)) = []"
    "recent_release (input_processor (check_body exact 1 (Code Keycode_P, 0) ?w)) =
       Some (Code Keycode_P)"
    "sent (bbc_keyboard (check_body exact 1 (Code Keycode_P, 0) ?w)) =
       [Press (Code Keycode_P), Release (Code Keycode_P)]"
    by (simp_all add: q)
  from c have c': "queue (input_processor (check_body exact 2.1 (Code Keycode_P, 2) ?s)) = []"
    by (simp add: q)
  from e have e': "queue (input_processor (check_body exact 0.1 (Code Keycode_P, 0) ?h)) = []"
    by (simp add: q)
  show ?thesis
    by (intro conjI d h1 h2 h3 h4 a' b c' e')
qed

text \<open>
  Against claim C3 as stated: at time 0.15 the key P observed at time 0 has been pending for
  its whole dwell of 0.15, and neither the loop body nor \<^verbatim>\<open>check\<close> releases it. The float sum
  of 0 and the delay is the delay itself, so nothing is rounded here.
\<close>

theorem check_body_not_expired_at_dwell:
  "0.15 - 0 \<ge> dwell_spec exact (input_processor (input 0 (Code Keycode_P) False world_init))
                  (Code Keycode_P)
   \<and> check_body exact 0.15 (Code Keycode_P, 0) (input 0 (Code Keycode_P) False world_init) =
       input 0 (Code Keycode_P) False world_init
   \<and> check exact 0.15 (input 0 (Code Keycode_P) False world_init) =
       input 0 (Code Keycode_P) False world_init"
proof -
  let ?w = "input 0 (Code Keycode_P) False world_init"
  have d: "dwell_spec exact (input_processor ?w) (Code Keycode_P) = 0.15"
    by (simp add: dwell_spec_def input_P_init)
  have q: "queue (input_processor ?w) = [(Code Keycode_P, 0)]"
    by (simp add: input_P_init)
  have b: "check_body exact 0.15 (Code Keycode_P, 0) ?w = ?w"
    by (simp add: check_body_cases d exact_def)
  have "check exact 0.15 ?w = fold (check_body exact 0.15) (queue (input_processor ?w)) ?w"
    by (rule check_fold) (simp add: q)
  with b have c: "check exact 0.15 ?w = ?w" by (simp add: q)
  show ?thesis using b c by (simp add: d)
qed

lemma input_Q_P_init:
  "bbc_keyboard (input 0 (Code Keycode_Q) False (input 0 (Code Keycode_P) False world_init)) =
     \<lparr>sent = [Press (Code Keycode_P), Press (Code Keycode_Q)], shift_down = False\<rparr>"
  "input_processor
     (input 0 (Code Keycode_Q) False (input 0 (Code Keycode_P) False world_init)) =
     \<lparr>queue = [(Code Keycode_P, 0), (Code Keycode_Q, 0)], short_queue = [],
      recent_release = None, delay = 0.15, short_delay = 0.09, no_input_registered = False\<rparr>"
  by (simp_all add: input_plain_new input_P_init key_down_def key_press_def)

lemma input_late_Q_P_init:
  "bbc_keyboard (input 0.9 (Code Keycode_Q) False (input 0 (Code Keycode_P) False world_init)) =
     \<lparr>sent = [Press (Code Keycode_P), Press (Code Keycode_Q)], shift_down = False\<rparr>"
  "input_processor
     (input 0.9 (Code Keycode_Q) False (input 0 (Code Keycode_P) False world_init)) =
     \<lparr>queue = [(Code Keycode_P, 0), (Code Keycode_Q, 0.9)], short_queue = [],
      recent_release = None, delay = 0.15, short_delay = 0.09, no_input_registered = False\<rparr>"
  by (simp_all add: input_plain_new input_P_init key_down_def key_press_def)

text \<open>
  Claim C8. \<^verbatim>\<open>check\<close> is a total function: its loop ends for every pending map and every
  clock value (the termination proof of \<open>check_loop\<close>), and nothing in it raises. On a
  pending map (a list without a repeated key) the loop with its removals does what the loop
  body does on every entry of the map in turn, each exactly once: no entry is skipped and
  none comes back. An entry is still pending after the call exactly when its dwell had not
  passed when the loop reached it; for every entry but the recent release that dwell is the
  delay, halved when the no-input flag is set.
\<close>

theorem check_examines_every_entry:
  assumes "distinct (map fst (queue (input_processor w)))"
  shows "check fl t w = fold (check_body fl t) (queue (input_processor w)) w
         \<and> set (queue (input_processor (check fl t w))) \<subseteq> set (queue (input_processor w))
         \<and> (\<forall>xs k v ys. queue (input_processor w) = xs @ (k, v) # ys \<longrightarrow>
               ((k, v) \<in> set (queue (input_processor (check fl t w)))) =
               (\<not> fl (v + dwell_spec fl (input_processor (fold (check_body fl t) xs w)) k)
                    < t))
         \<and> (\<forall>kv \<in> set (queue (input_processor w)).
               recent_release (input_processor w) \<noteq> Some (fst kv) \<longrightarrow>
               (kv \<in> set (queue (input_processor (check fl t w)))) =
               (\<not> fl (snd kv + (if no_input_registered (input_processor w)
                                    then fl (delay (input_processor w) / 2)
                                    else delay (input_processor w))) < t))"
proof -
  note f = check_fold [OF assms, of fl t]
  have s: "set (queue (input_processor (check fl t w))) \<subseteq> set (queue (input_processor w))"
    unfolding f by (rule fold_check_body_subset)
  have e: "\<forall>xs k v ys. queue (input_processor w) = xs @ (k, v) # ys \<longrightarrow>
               ((k, v) \<in> set (queue (input_processor (check fl t w)))) =
               (\<not> fl (v + dwell_spec fl (input_processor (fold (check_body fl t) xs w)) k)
                    < t)"
    using check_entry [OF assms] by blast
  have n: "\<forall>kv \<in> set (queue (input_processor w)).
               recent_release (input_processor w) \<noteq> Some (fst kv) \<longrightarrow>
               (kv \<in> set (queue (input_processor (check fl t w)))) =
               (\<not> fl (snd kv + (if no_input_registered (input_processor w)
                                    then fl (delay (input_processor w) / 2)
                                    else delay (input_processor w))) < t)"
  proof (intro ballI impI)
    fix kv
    assume m: "kv \<in> set (queue (input_processor w))"
      and r: "recent_release (input_processor w) \<noteq> Some (fst kv)"
    obtain k v where kv: "kv = (k, v)" by (cases kv)
    from check_entry_not_recent [OF assms, of k v fl t] m r kv
    show "(kv \<in> set (queue (input_processor (check fl t w)))) =
               (\<not> fl (snd kv + (if no_input_registered (input_processor w)
                                    then fl (delay (input_processor w) / 2)
                                    else delay (input_processor w))) < t)"
      by simp
  qed
  show ?thesis by (intro conjI f s e n)
qed

text \<open>
  P and Q both pending since time 0, \<^verbatim>\<open>check\<close> at time 1: P is removed while Q remains to
  be iterated, then Q is removed too. P pending since 0 and Q since 0.9: P is removed and Q,
  examined after the removal, stays.
\<close>

theorem check_examines_every_entry_witness:
  "distinct (map fst (queue (input_processor
      (input 0 (Code Keycode_Q) False (input 0 (Code Keycode_P) False world_init)))))
   \<and> queue (input_processor
        (input 0 (Code Keycode_Q) False (input 0 (Code Keycode_P) False world_init))) =
       [(Code Keycode_P, 0)] @ (Code Keycode_Q, 0) # []
   \<and> queue (input_processor (check exact 1
        (input 0 (Code Keycode_Q) False (input 0 (Code Keycode_P) False world_init)))) = []
   \<and> sent (bbc_keyboard (check exact 1
        (input 0 (Code Keycode_Q) False (input 0 (Code Keycode_P) False world_init)))) =
       [Press (Code Keycode_P), Press (Code Keycode_Q),
        Release (Code Keycode_P), Release (Code Keycode_Q)]
   \<and> (Code Keycode_Q, 0) \<notin> set (queue (input_processor (check exact 1
        (input 0 (Code Keycode_Q) False (input 0 (Code Keycode_P) False world_init)))))
   \<and> distinct (map fst (queue (input_processor
      (input 0.9 (Code Keycode_Q) False (input 0 (Code Keycode_P) False world_init)))))
   \<and> (Code Keycode_Q, 0.9) \<in> set (queue (input_processor
        (input 0.9 (Code Keycode_Q) False (input 0 (Code Keycode_P) False world_init))))
   \<and> recent_release (input_processor
        (input 0.9 (Code Keycode_Q) False (input 0 (Code Keycode_P) False world_init))) \<noteq>
       Some (Code Keycode_Q)
   \<and> (Code Keycode_Q, 0.9) \<in> set (queue (input_processor (check exact 1
        (input 0.9 (Code Keycode_Q) False (input 0 (Code Keycode_P) False world_init)))))
   \<and> queue (input_processor (check exact 1
        (input 0.9 (Code Keycode_Q) False (input 0 (Code Keycode_P) False world_init)))) =
       [(Code Keycode_Q, 0.9)]
   \<and> sent (bbc_keyboard (check exact 1
        (input 0.9 (Code Keycode_Q) False (input 0 (Code Keycode_P) False world_init)))) =
       [Press (Code Keycode_P), Press (Code Keycode_Q), Release (Code Keycode_P)]"
proof -
  let ?a = "input 0 (Code Keycode_Q) False (input 0 (Code Keycode_P) False world_init)"
  let ?b = "input 0.9 (Code Keycode_Q) False (input 0 (Code Keycode_P) False world_init)"
  have qa: "queue (input_processor ?a) = [(Code Keycode_P, 0), (Code Keycode_Q, 0)]"
    and qb: "queue (input_processor ?b) = [(Code Keycode_P, 0), (Code Keycode_Q, 0.9)]"
    and rb: "recent_release (input_processor ?b) = None"
    by (simp_all add: input_Q_P_init input_late_Q_P_init)
  have da: "distinct (map fst (queue (input_processor ?a)))"
    and db: "distinct (map fst (queue (input_processor ?b)))"
    by (simp_all add: qa qb)
  note ta = check_examines_every_entry [OF da, of exact 1]
  note tb = check_examines_every_entry [OF db, of exact 1]
  from ta have fa: "check exact 1 ?a = fold (check_body exact 1) (queue (input_processor ?a)) ?a"
    by blast
  from tb have fb: "check exact 1 ?b = fold (check_body exact 1) (queue (input_processor ?b)) ?b"
    by blast
  have ea: "queue (input_processor (check exact 1 ?a)) = []"
    "sent (bbc_keyboard (check exact 1 ?a)) =
       [Press (Code Keycode_P), Press (Code Keycode_Q),
        Release (Code Keycode_P), Release (Code Keycode_Q)]"
    unfolding fa qa
    by (simp_all add: check_body_cases dwell_spec_def exact_def input_Q_P_init sent_key_up)
  have eb: "queue (input_processor (check exact 1 ?b)) = [(Code Keycode_Q, 0.9)]"
    "sent (bbc_keyboard (check exact 1 ?b)) =
       [Press (Code Keycode_P), Press (Code Keycode_Q), Release (Code Keycode_P)]"
    unfolding fb qb
    by (simp_all add: check_body_cases dwell_spec_def exact_def input_late_Q_P_init sent_key_up)
  have sa: "queue (input_processor ?a) = [(Code Keycode_P, 0)] @ (Code Keycode_Q, 0) # []"
    by (simp add: qa)
  from ta have "\<forall>xs k v ys. queue (input_processor ?a) = xs @ (k, v) # ys \<longrightarrow>
               ((k, v) \<in> set (queue (input_processor (check exact 1 ?a)))) =
               (\<not> exact (v + dwell_spec exact
                    (input_processor (fold (check_body exact 1) xs ?a)) k) < 1)"
    by blast
  from this [rule_format, OF sa]
  have na: "(Code Keycode_Q, 0) \<notin> set (queue (input_processor (check exact 1 ?a)))"
    by (simp add: check_body_cases dwell_spec_def exact_def input_Q_P_init)
  have mb: "(Code Keycode_Q, 0.9) \<in> set (queue (input_processor ?b))"
    and nb: "recent_release (input_processor ?b) \<noteq> Some (Code Keycode_Q)"
    by (simp_all add: qb rb)
  from tb have "\<forall>kv \<in> set (queue (input_processor ?b)).
               recent_release (input_processor ?b) \<noteq> Some (fst kv) \<longrightarrow>
               (kv \<in> set (queue (input_processor (check exact 1 ?b)))) =
               (\<not> exact (snd kv + (if no_input_registered (input_processor ?b)
                                    then exact (delay (input_processor ?b) / 2)
                                    else delay (input_processor ?b))) < 1)"
    by blast
  from this [rule_format, OF mb] nb
  have kb: "(Code Keycode_Q, 0.9) \<in> set (queue (input_processor (check exact 1 ?b)))"
    by (simp add: exact_def input_late_Q_P_init)
  show ?thesis by (intro conjI da sa ea na db mb nb kb eb)
qed

lemma if_print_fields:
  "bbc_keyboard (if c then print l w else w) = bbc_keyboard w"
  "input_processor (if c then print l w else w) = input_processor w"
  by (simp_all add: print_def)

lemma input_queue:
  "queue (input_processor (input now v shift w)) =
     (if (case v of AltShift k a \<Rightarrow> if shift_down (bbc_keyboard w) then a else k | _ \<Rightarrow> v)
           \<in> fst ` set (queue (input_processor w))
      then queue (input_processor w)
      else queue (input_processor w) @
             [(case v of AltShift k a \<Rightarrow> if shift_down (bbc_keyboard w) then a else k | _ \<Rightarrow> v,
               now)])"
  by (cases v) (simp_all add: input_def Let_def if_print_fields)

lemma input_pending:
  assumes "(case v of AltShift k a \<Rightarrow> if shift_down (bbc_keyboard w) then a else k | _ \<Rightarrow> v)
             \<in> fst ` set (queue (input_processor w))"
  shows "bbc_keyboard (input now v shift w) = bbc_keyboard w"
  using assms
  by (cases v) (simp_all add: input_def Let_def if_print_fields split: if_splits)

lemma reachable_distinct:
  "reachable w \<Longrightarrow> distinct (map fst (queue (input_processor w)))"
proof (induction rule: reachable.induct)
  case (start w)
  then show ?case by simp
next
  case (after_input w now v shift)
  then show ?case by (auto simp add: input_queue)
next
  case (after_no_input w)
  then show ?case by (simp add: no_input_def)
next
  case (after_check w fl t)
  then show ?case by (simp add: check_fold distinct_fold_check_body)
qed

text \<open>
  Claim C4. In every reachable state no key is pending twice, and a call of \<^verbatim>\<open>input\<close> whose
  resolved key is already pending changes neither the pending map (no new entry, the
  timestamps as they were) nor the sink (no event sent).
\<close>

theorem pending_at_most_once:
  assumes "reachable w"
  shows "distinct (map fst (queue (input_processor w)))
         \<and> (\<forall>now v shift.
              (case v of
                 AltShift k a \<Rightarrow> if shift_down (bbc_keyboard w) then a else k
               | _ \<Rightarrow> v) \<in> fst ` set (queue (input_processor w)) \<longrightarrow>
              queue (input_processor (input now v shift w)) = queue (input_processor w)
              \<and> bbc_keyboard (input now v shift w) = bbc_keyboard w)"
  using assms by (simp add: reachable_distinct input_queue input_pending)

text \<open>P observed at time 0 and again at time 1: one entry, stamped 0, and one press sent.\<close>

theorem pending_at_most_once_witness:
  "reachable (input 0 (Code Keycode_P) False world_init)
   \<and> Code Keycode_P \<in>
       fst ` set (queue (input_processor (input 0 (Code Keycode_P) False world_init)))
   \<and> distinct (map fst (queue (input_processor (input 0 (Code Keycode_P) False world_init))))
   \<and> queue (input_processor
        (input 1 (Code Keycode_P) False (input 0 (Code Keycode_P) False world_init))) =
       [(Code Keycode_P, 0)]
   \<and> sent (bbc_keyboard
        (input 1 (Code Keycode_P) False (input 0 (Code Keycode_P) False world_init))) =
       [Press (Code Keycode_P)]"
proof -
  let ?w = "input 0 (Code Keycode_P) False world_init"
  have r: "reachable ?w"
    by (intro reachable.after_input reachable.start) (simp add: world_init_simps)
  have q: "queue (input_processor ?w) = [(Code Keycode_P, 0)]"
    "sent (bbc_keyboard ?w) = [Press (Code Keycode_P)]"
    by (simp_all add: input_P_init)
  have p: "(case Code Keycode_P of
              AltShift k a \<Rightarrow> if shift_down (bbc_keyboard ?w) then a else k
            | _ \<Rightarrow> Code Keycode_P) \<in> fst ` set (queue (input_processor ?w))"
    by (simp add: q)
  note a = pending_at_most_once [OF r, THEN conjunct1]
  note b = pending_at_most_once [OF r, THEN conjunct2, rule_format, OF p, of 1 False]
  show ?thesis using r a b by (simp add: q)
qed

section \<open>Properties of the binary encoding\<close>

lemma int_to_bin_encoding: "int_to_bin (int v) n = Inr (encoding v n)"
  by (simp add: int_to_bin_def encoding_def)

lemma be_value_snoc: "be_value (bs @ [b]) = 2 * be_value bs + (if b then 1 else 0)"
  by (simp add: be_value_def)

lemma be_value_zeros: "be_value (replicate k False @ bs) = be_value bs"
proof -
  have "foldl (\<lambda>acc b. 2 * acc + (if b then 1 else 0)) (0::nat) (replicate k False) = 0"
    by (induction k) simp_all
  then show ?thesis by (simp add: be_value_def)
qed

lemma be_value_bin_digits: "be_value (map (\<lambda>x. x \<noteq> CHR ''0'') (bin_digits v)) = v"
proof (induction v rule: bin_digits.induct)
  case (1 n)
  show ?case
  proof (cases "n < 2")
    case True
    then have "n = 0 \<or> n = 1" by auto
    then show ?thesis
      by (subst bin_digits.simps) (auto simp add: be_value_def)
  next
    case False
    with 1 have ih: "be_value (map (\<lambda>x. x \<noteq> CHR ''0'') (bin_digits (n div 2))) = n div 2"
      by simp
    from False show ?thesis
      by (subst bin_digits.simps) (simp add: be_value_snoc ih, presburger)
  qed
qed

lemma length_bin_digits: "v < 2 ^ n \<Longrightarrow> 0 < n \<Longrightarrow> length (bin_digits v) \<le> n"
proof (induction v arbitrary: n rule: bin_digits.induct)
  case (1 v)
  show ?case
  proof (cases "v < 2")
    case True
    with 1(3) show ?thesis by (subst bin_digits.simps) simp
  next
    case False
    obtain m where n: "n = Suc m" using 1(3) by (cases n) auto
    from False 1(2) n have m: "0 < m" by (cases m) auto
    from 1(2) n have "v div 2 < 2 ^ m" by auto
    then have "length (bin_digits (v div 2)) \<le> m" using 1(1) False m by blast
    with False n show ?thesis by (subst bin_digits.simps) simp
  qed
qed

lemma bin_digits_nonempty: "bin_digits v \<noteq> []"
  by (subst bin_digits.simps) simp

lemma length_encoding: "v < 2 ^ n \<Longrightarrow> 0 < n \<Longrightarrow> length (encoding v n) = n"
  using length_bin_digits [of v n] by (simp add: encoding_def format_0b_def)

lemma be_value_encoding: "be_value (encoding v n) = v"
proof -
  have "map (\<lambda>x. x \<noteq> CHR ''0'') (replicate k CHR ''0'') = replicate k False" for k
    by simp
  then show ?thesis
    by (simp add: encoding_def format_0b_def be_value_zeros be_value_bin_digits)
qed

lemma encoding_inj: "encoding v n = encoding v' n \<Longrightarrow> v = v'"
  by (metis be_value_encoding)

lemma SoftwareScan_init_ok: "SoftwareScan_init = Inr bbc_ss"
  unfolding bbc_ss_def by code_simp

lemma collect_map_Inr: "collect (map (\<lambda>x. Inr (f x)) xs) = Inr (map f xs)"
  by (induction xs) simp_all

lemma bbc_ss_eq:
  "bbc_ss = \<lparr>r_opts = map (\<lambda>x. encoding x 3) [0..<8],
             c_opts = map (\<lambda>x. encoding x 4) [0..<16],
             col_with_options = enumerate 0 (part_zip col_pins (map (\<lambda>x. encoding x 4) [0..<16])),
             row_with_options = enumerate 0 (part_zip row_pins (map (\<lambda>x. encoding x 3) [0..<8]))\<rparr>"
proof -
  have l: "length row_pins = 3" "length col_pins = 4"
    by (simp_all add: row_pins_def col_pins_def)
  show ?thesis
    by (simp add: bbc_ss_def SoftwareScan_init_def int_to_bin_encoding collect_map_Inr l Let_def)
qed

lemma enumerate_map_upt: "enumerate 0 (map f [0..<n]) = map (\<lambda>x. (x, f x)) [0..<n]"
  by (simp add: enumerate_eq_zip zip_map2 zip_same_conv_map map_nth flip: map_fst_zip)

section \<open>Properties of the pins and of the scan options\<close>

lemma pin_write_fields:
  "bbc_keyboard (pin_write p b w) = bbc_keyboard w"
  "input_processor (pin_write p b w) = input_processor w"
  "stdout (pin_write p b w) = stdout w"
  "absence_count (pin_write p b w) = absence_count w"
  "switch_value (pin_write p b w) = switch_value w"
  "pin_value (pin_write p b w) = (pin_value w)(p := b)"
  "pin_writes (pin_write p b w) = pin_writes w @ [(p, b)]"
  by (simp_all add: pin_write_def)

lemma set_pins_simps:
  "set_pins [] w = w"
  "set_pins (pv # opts) w = set_pins opts (pin_write (fst pv) (snd pv) w)"
  by (simp_all add: set_pins_def)

lemma set_pins_fields:
  "bbc_keyboard (set_pins opts w) = bbc_keyboard w"
  "input_processor (set_pins opts w) = input_processor w"
  "stdout (set_pins opts w) = stdout w"
  "absence_count (set_pins opts w) = absence_count w"
  "switch_value (set_pins opts w) = switch_value w"
  by (induction opts arbitrary: w; simp add: set_pins_simps pin_write_fields)+

lemma pin_value_set_pins_other:
  "p \<notin> fst ` set opts \<Longrightarrow> pin_value (set_pins opts w) p = pin_value w p"
  by (induction opts arbitrary: w) (auto simp add: set_pins_simps pin_write_fields)

lemma pin_value_set_pins_zip:
  "distinct ps \<Longrightarrow> length bs = length ps \<Longrightarrow>
     map (pin_value (set_pins (zip ps bs) w)) ps = bs"
proof (induction ps arbitrary: bs w)
  case Nil
  then show ?case by simp
next
  case (Cons p ps)
  then obtain b bs' where bs: "bs = b # bs'" by (cases bs) auto
  have "p \<notin> fst ` set (zip ps bs')" using Cons.prems(1) by (auto dest: set_zip_leftD)
  then have "pin_value (set_pins (zip ps bs') (pin_write p b w)) p = b"
    by (simp add: pin_value_set_pins_other pin_write_fields)
  with Cons bs show ?case by (simp add: set_pins_simps)
qed

lemma row_with_options_bbc_ss:
  "row_with_options bbc_ss = map (\<lambda>rx. (rx, zip row_pins (encoding rx 3))) [0..<8]"
  by (simp add: bbc_ss_eq part_zip_def enumerate_map_upt comp_def del: upt_Suc)

lemma col_with_options_bbc_ss:
  "col_with_options bbc_ss = map (\<lambda>cx. (cx, zip col_pins (encoding cx 4))) [0..<16]"
  by (simp add: bbc_ss_eq part_zip_def enumerate_map_upt comp_def del: upt_Suc)


lemma row_item:
  "r < 8 \<Longrightarrow> row_with_options bbc_ss ! r = (r, zip row_pins (encoding r 3))"
  by (simp add: row_with_options_bbc_ss del: upt_Suc)

lemma col_item:
  "c < 16 \<Longrightarrow> col_with_options bbc_ss ! c = (c, zip col_pins (encoding c 4))"
  by (simp add: col_with_options_bbc_ss del: upt_Suc)

lemma length_pins: "length row_pins = 3" "length col_pins = 4"
  "distinct row_pins" "distinct col_pins"
  by (simp_all add: row_pins_def col_pins_def)

section \<open>Frame properties of input and of the break button\<close>

lemma input_frame:
  "pin_value (input now v shift w) = pin_value w"
  "pin_writes (input now v shift w) = pin_writes w"
  "absence_count (input now v shift w) = absence_count w"
  "switch_value (input now v shift w) = switch_value w"
  by (cases v; simp add: input_def Let_def print_def)+

lemma check_shift_fields:
  "bbc_keyboard (snd (check_shift wl w)) = bbc_keyboard w"
  "input_processor (snd (check_shift wl w)) = input_processor w"
  "stdout (snd (check_shift wl w)) = stdout w"
  by (simp_all add: check_shift_def Let_def pin_write_fields col_pins_def row_pins_def)

lemma check_shift_switch_value:
  "fst (check_shift wl (w\<lparr>switch_value := d\<rparr>)) = fst (check_shift wl w)"
  by (simp add: check_shift_def Let_def pin_write_def col_pins_def row_pins_def)

lemma input_cong_fields:
  assumes "bbc_keyboard w = bbc_keyboard w'" and "input_processor w = input_processor w'"
  shows "bbc_keyboard (input now v shift w) = bbc_keyboard (input now v shift w')"
    and "input_processor (input now v shift w) = input_processor (input now v shift w')"
  using assms by (cases v; simp add: input_def Let_def if_print_fields)+

lemma break_raw_low_forwards:
  "sent (bbc_keyboard (BreakButtonProcessor_check True False wl now world_init)) =
     [Press (Code Keycode_BACKSPACE)]"
proof -
  let ?w1 = "snd (check_shift wl (world_init\<lparr>switch_value := True\<rparr>))"
  have q: "queue (input_processor ?w1) = []" "sent (bbc_keyboard ?w1) = []"
    by (simp_all add: check_shift_fields world_init_simps)
  then have "Code Keycode_BACKSPACE \<notin> fst ` set (queue (input_processor ?w1))" by simp
  then have "sent (bbc_keyboard (input now (Code Keycode_BACKSPACE) s ?w1)) =
          [Press (Code Keycode_BACKSPACE)]" for s
    by (cases s) (simp_all add: input_def Let_def print_def sent_key_down q)
  then show ?thesis
    by (simp add: BreakButtonProcessor_check_def Let_def split_beta)
qed

lemma break_raw_high_silent:
  "sent (bbc_keyboard (BreakButtonProcessor_check False True wl now world_init)) = []"
  by (simp add: BreakButtonProcessor_check_def Let_def world_init_simps)

lemma break_ignores_debouncer:
  "bbc_keyboard (BreakButtonProcessor_check d raw wl now w) =
     bbc_keyboard (BreakButtonProcessor_check d' raw wl now w)
   \<and> input_processor (BreakButtonProcessor_check d raw wl now w) =
       input_processor (BreakButtonProcessor_check d' raw wl now w)"
proof (cases raw)
  case True
  then show ?thesis by (simp add: BreakButtonProcessor_check_def Let_def)
next
  case False
  let ?s = "fst (check_shift wl w)"
  let ?a = "snd (check_shift wl (w\<lparr>switch_value := d\<rparr>))"
  let ?b = "snd (check_shift wl (w\<lparr>switch_value := d'\<rparr>))"
  have k: "bbc_keyboard ?a = bbc_keyboard ?b" and p: "input_processor ?a = input_processor ?b"
    by (simp_all add: check_shift_fields)
  have "bbc_keyboard (input now (Code Keycode_BACKSPACE) ?s ?a) =
        bbc_keyboard (input now (Code Keycode_BACKSPACE) ?s ?b)"
    by (rule input_cong_fields(1) [OF k p])
  moreover have "input_processor (input now (Code Keycode_BACKSPACE) ?s ?a) =
        input_processor (input now (Code Keycode_BACKSPACE) ?s ?b)"
    by (rule input_cong_fields(2) [OF k p])
  ultimately show ?thesis using False
    by (simp add: BreakButtonProcessor_check_def Let_def split_beta check_shift_switch_value)
qed

section \<open>Properties of the hardware scan\<close>

lemma tripped_tick_eq:
  "HardwareScan_check True led_on trigger_func absence_func w =
     align_leds led_on
       (set_on GP1 False
          (set_off GP1 False ((trigger_func (set_off GP1 False w))\<lparr>absence_count := 0\<rparr>)))"
  by (simp add: HardwareScan_check_def Let_def)

lemma set_off_strobe:
  "pin_value (set_off GP1 False w) GP1 = False
   \<and> pin_writes (set_off GP1 False w) = pin_writes w @ [(GP1, False)]"
  by (simp add: set_off_def Output_set_def pin_write_fields)

lemma tripped_tick_writes:
  "absence_count (HardwareScan_check True led_on trigger_func absence_func w) = 0
   \<and> pin_writes (HardwareScan_check True led_on trigger_func absence_func w) =
       pin_writes (trigger_func (set_off GP1 False w)) @
         [(GP1, False), (GP1, True), (GP15, \<not> led_on)]"
  by (simp add: tripped_tick_eq align_leds_def set_on_def set_off_def Output_set_def pin_write_fields)

section \<open>The sweep as the processing of its hits\<close>

lemma input_pin_write:
  "input now v shift (pin_write p b w) = pin_write p b (input now v shift w)"
  by (cases v; simp add: input_def Let_def print_def pin_write_def)

lemma print_pin_write: "print l (pin_write p b w) = pin_write p b (print l w)"
  by (simp add: print_def pin_write_def)

lemma process_pin_write:
  "process now r c (pin_write p b w) = pin_write p b (process now r c w)"
  by (simp add: process_def Let_def input_pin_write print_pin_write split: option.splits)

lemma process_set_pins:
  "process now r c (set_pins opts w) = set_pins opts (process now r c w)"
  by (induction opts arbitrary: w) (simp_all add: set_pins_simps process_pin_write)

lemma process_frame:
  "pin_value (process now r c w) = pin_value w"
  "pin_writes (process now r c w) = pin_writes w"
  "absence_count (process now r c w) = absence_count w"
  "switch_value (process now r c w) = switch_value w"
  by (simp_all add: process_def Let_def print_def input_frame split: option.splits)

lemma stdout_input_no_shift: "stdout (input now v False w) = stdout w"
  by (cases v; simp add: input_def Let_def)

lemma stdout_process:
  "stdout (process now r c w) = stdout w @ [ProcessLine r c (keys r c)]"
  by (simp add: process_def Let_def print_def stdout_input_no_shift split: option.splits)

lemma check_row_no_key:
  "check_row no_key now_at cx rxo w =
     pin_write GP1 True (pin_write GP1 False (set_pins (snd rxo) w))"
  by (simp add: check_row_def Let_def no_key_def)

lemma check_row_split:
  "check_row wl now_at cx rxo w =
     check_row no_key now_at cx rxo
       (if wl (pin_value (check_row no_key now_at cx rxo w))
        then process (now_at (fst rxo) cx) (fst rxo) cx w else w)"
proof -
  let ?w3 = "pin_write GP1 True (pin_write GP1 False (set_pins (snd rxo) w))"
  have "check_row wl now_at cx rxo w =
          (if wl (pin_value ?w3) then process (now_at (fst rxo) cx) (fst rxo) cx ?w3 else ?w3)"
    by (simp add: check_row_def Let_def)
  also have "\<dots> = check_row no_key now_at cx rxo
       (if wl (pin_value (check_row no_key now_at cx rxo w))
        then process (now_at (fst rxo) cx) (fst rxo) cx w else w)"
    by (simp add: check_row_no_key process_pin_write process_set_pins)
  finally show ?thesis .
qed

lemma process_check_row_no_key:
  "process now r c (check_row no_key now_at cx rxo w) =
     check_row no_key now_at cx rxo (process now r c w)"
  by (simp add: check_row_no_key process_pin_write process_set_pins)

lemma fold_process_check_row_no_key:
  "fold (\<lambda>rx. process (now_at rx c) rx c) rs (check_row no_key now_at' cx rxo w) =
     check_row no_key now_at' cx rxo (fold (\<lambda>rx. process (now_at rx c) rx c) rs w)"
  by (induction rs arbitrary: w) (simp_all add: process_check_row_no_key)

lemma pin_value_fold_process:
  "pin_value (fold (\<lambda>rx. process (now_at rx c) rx c) rs w) = pin_value w"
  by (induction rs arbitrary: w) (simp_all add: process_frame)

lemma pins_disjoint:
  "GP1 \<notin> set col_pins" "GP1 \<notin> set row_pins" "GP2 \<notin> set col_pins" "GP2 \<notin> set row_pins"
  "set row_pins \<inter> set col_pins = {}"
  by (simp_all add: row_pins_def col_pins_def)

lemma map_pin_value_set_pins_other:
  "set ps \<inter> fst ` set opts = {} \<Longrightarrow>
     map (pin_value (set_pins opts w)) ps = map (pin_value w) ps"
  by (intro map_cong refl pin_value_set_pins_other) auto

lemma map_pin_value_pin_write_other:
  "p \<notin> set ps \<Longrightarrow> map (pin_value (pin_write p b w)) ps = map (pin_value w) ps"
  by (intro map_cong refl) (auto simp add: pin_write_fields)

lemma check_row_no_key_pins:
  assumes "length rb = 3"
  shows "map (pin_value (check_row no_key now_at cx (rx, zip row_pins rb) w)) row_pins = rb"
    and "map (pin_value (check_row no_key now_at cx (rx, zip row_pins rb) w)) col_pins =
           map (pin_value w) col_pins"
proof -
  have "fst ` set (zip row_pins rb) \<subseteq> set row_pins" by (auto dest: set_zip_leftD)
  then have d: "set col_pins \<inter> fst ` set (zip row_pins rb) = {}"
    using pins_disjoint(5) by auto
  show "map (pin_value (check_row no_key now_at cx (rx, zip row_pins rb) w)) row_pins = rb"
    using assms
    by (simp add: check_row_no_key map_pin_value_pin_write_other pins_disjoint
          pin_value_set_pins_zip length_pins)
  show "map (pin_value (check_row no_key now_at cx (rx, zip row_pins rb) w)) col_pins =
           map (pin_value w) col_pins"
    by (simp add: check_row_no_key map_pin_value_pin_write_other pins_disjoint
          map_pin_value_set_pins_other [OF d])
qed

lemma row_loop:
  assumes H: "\<And>lv. wl lv = m (map lv col_pins) (map lv row_pins)"
    and rs: "\<forall>rx \<in> set rs. rx < 8"
    and cb: "map (pin_value w) col_pins = cb"
  shows "fold (check_row wl now_at cx) (map (\<lambda>rx. (rx, zip row_pins (encoding rx 3))) rs) w =
         fold (check_row no_key now_at cx) (map (\<lambda>rx. (rx, zip row_pins (encoding rx 3))) rs)
           (fold (\<lambda>rx. process (now_at rx cx) rx cx)
              (filter (\<lambda>rx. m cb (encoding rx 3)) rs) w)"
  using rs cb
proof (induction rs arbitrary: w)
  case Nil
  then show ?case by simp
next
  case (Cons r rs)
  let ?item = "(r, zip row_pins (encoding r 3))"
  let ?items = "map (\<lambda>rx. (rx, zip row_pins (encoding rx 3))) rs"
  let ?maybe = "if m cb (encoding r 3) then process (now_at r cx) r cx w else w"
  let ?hits = "filter (\<lambda>rx. m cb (encoding rx 3)) rs"
  from Cons.prems(1) have len: "length (encoding r 3) = 3"
    by (simp add: length_encoding)
  have hit: "wl (pin_value (check_row no_key now_at cx ?item w)) = m cb (encoding r 3)"
    using Cons.prems(2) by (simp add: H check_row_no_key_pins [OF len])
  have step: "check_row wl now_at cx ?item w = check_row no_key now_at cx ?item ?maybe"
    by (subst check_row_split) (simp add: hit)
  have pv: "pin_value ?maybe = pin_value w" by (simp add: process_frame)
  have cb': "map (pin_value (check_row no_key now_at cx ?item ?maybe)) col_pins = cb"
    using Cons.prems(2) by (simp add: check_row_no_key_pins(2) [OF len] pv)
  have "fold (check_row wl now_at cx) (?item # ?items) w =
        fold (check_row wl now_at cx) ?items (check_row no_key now_at cx ?item ?maybe)"
    by (simp add: step)
  also have "\<dots> = fold (check_row no_key now_at cx) ?items
                     (fold (\<lambda>rx. process (now_at rx cx) rx cx) ?hits
                        (check_row no_key now_at cx ?item ?maybe))"
    using Cons.prems(1) cb' by (intro Cons.IH) simp_all
  also have "\<dots> = fold (check_row no_key now_at cx) ?items
                     (check_row no_key now_at cx ?item
                        (fold (\<lambda>rx. process (now_at rx cx) rx cx) ?hits ?maybe))"
    by (simp only: fold_process_check_row_no_key)
  also have "\<dots> = fold (check_row no_key now_at cx) (?item # ?items)
                     (fold (\<lambda>rx. process (now_at rx cx) rx cx)
                        (filter (\<lambda>rx. m cb (encoding rx 3)) (r # rs)) w)"
    by simp
  finally show ?case by simp
qed

lemma fold_process_set_pins:
  "fold (\<lambda>rx. process (now_at rx c) rx c) rs (set_pins opts w) =
     set_pins opts (fold (\<lambda>rx. process (now_at rx c) rx c) rs w)"
  by (induction rs arbitrary: w) (simp_all add: process_set_pins)

lemma fold_process_pin_write:
  "fold (\<lambda>rx. process (now_at rx c) rx c) rs (pin_write p b w) =
     pin_write p b (fold (\<lambda>rx. process (now_at rx c) rx c) rs w)"
  by (induction rs arbitrary: w) (simp_all add: process_pin_write)

lemma process_fold_check_row_no_key:
  "process now r c (fold (check_row no_key now_at cx) items w) =
     fold (check_row no_key now_at cx) items (process now r c w)"
  by (induction items arbitrary: w) (simp_all add: process_check_row_no_key)

lemma process_check_column_no_key:
  "process now r c (check_column self no_key now_at cxo w) =
     check_column self no_key now_at cxo (process now r c w)"
  by (simp add: check_column_def process_fold_check_row_no_key process_set_pins)

lemma fold_process_check_column_no_key:
  "fold (\<lambda>rx. process (now_at rx c) rx c) rs (check_column self no_key now_at' cxo w) =
     check_column self no_key now_at' cxo (fold (\<lambda>rx. process (now_at rx c) rx c) rs w)"
  by (induction rs arbitrary: w) (simp_all add: process_check_column_no_key)

lemma check_column_split:
  assumes H: "\<And>lv. wl lv = m (map lv col_pins) (map lv row_pins)"
    and c: "c < 16"
  shows "check_column bbc_ss wl now_at (c, zip col_pins (encoding c 4)) w =
         check_column bbc_ss no_key now_at (c, zip col_pins (encoding c 4))
           (fold (\<lambda>rx. process (now_at rx c) rx c)
              (filter (\<lambda>rx. m (encoding c 4) (encoding rx 3)) [0..<8]) w)"
proof -
  let ?opts = "zip col_pins (encoding c 4)"
  from c have "length (encoding c 4) = length col_pins"
    by (simp add: length_encoding length_pins)
  then have cb: "map (pin_value (set_pins ?opts w)) col_pins = encoding c 4"
    by (simp add: pin_value_set_pins_zip length_pins)
  have rs: "\<forall>rx \<in> set [0..<8]. rx < (8::nat)" by simp
  show ?thesis
    unfolding check_column_def fst_conv snd_conv row_with_options_bbc_ss
    by (subst row_loop [of wl m, OF H rs cb]) (simp only: fold_process_set_pins)
qed

lemma hits_commute:
  "fold (\<lambda>cx. fold (\<lambda>rx. process (now_at rx cx) rx cx) (hits cx)) cs
     (check_column self no_key now_at' cxo w) =
   check_column self no_key now_at' cxo
     (fold (\<lambda>cx. fold (\<lambda>rx. process (now_at rx cx) rx cx) (hits cx)) cs w)"
  by (induction cs arbitrary: w) (simp_all add: fold_process_check_column_no_key)

lemma hits_pin_write:
  "fold (\<lambda>cx. fold (\<lambda>rx. process (now_at rx cx) rx cx) (hits cx)) cs (pin_write p b w) =
   pin_write p b (fold (\<lambda>cx. fold (\<lambda>rx. process (now_at rx cx) rx cx) (hits cx)) cs w)"
  by (induction cs arbitrary: w) (simp_all add: fold_process_pin_write)

lemma col_loop:
  assumes H: "\<And>lv. wl lv = m (map lv col_pins) (map lv row_pins)"
    and cs: "\<forall>cx \<in> set cs. cx < 16"
  shows "fold (check_column bbc_ss wl now_at)
           (map (\<lambda>cx. (cx, zip col_pins (encoding cx 4))) cs) w =
         fold (check_column bbc_ss no_key now_at)
           (map (\<lambda>cx. (cx, zip col_pins (encoding cx 4))) cs)
           (fold (\<lambda>cx. fold (\<lambda>rx. process (now_at rx cx) rx cx)
                          (filter (\<lambda>rx. m (encoding cx 4) (encoding rx 3)) [0..<8])) cs w)"
  using cs
proof (induction cs arbitrary: w)
  case Nil
  then show ?case by simp
next
  case (Cons c cs)
  let ?hits = "\<lambda>cx. filter (\<lambda>rx. m (encoding cx 4) (encoding rx 3)) [0..<8]"
  let ?P = "\<lambda>cs. fold (\<lambda>cx. fold (\<lambda>rx. process (now_at rx cx) rx cx) (?hits cx)) cs"
  let ?item = "(c, zip col_pins (encoding c 4))"
  let ?items = "map (\<lambda>cx. (cx, zip col_pins (encoding cx 4))) cs"
  from Cons.prems have c: "c < 16" and cs: "\<forall>cx \<in> set cs. cx < 16" by simp_all
  have "fold (check_column bbc_ss wl now_at) (?item # ?items) w =
        fold (check_column bbc_ss wl now_at) ?items
          (check_column bbc_ss no_key now_at ?item (?P [c] w))"
    by (simp add: check_column_split [of wl m, OF H c])
  also have "\<dots> = fold (check_column bbc_ss no_key now_at) ?items
                     (?P cs (check_column bbc_ss no_key now_at ?item (?P [c] w)))"
    by (rule Cons.IH [OF cs])
  also have "\<dots> = fold (check_column bbc_ss no_key now_at) ?items
                     (check_column bbc_ss no_key now_at ?item (?P cs (?P [c] w)))"
    by (simp only: hits_commute)
  also have "\<dots> = fold (check_column bbc_ss no_key now_at) (?item # ?items) (?P (c # cs) w)"
    by simp
  finally show ?case by simp
qed

lemma sweep_split:
  assumes H: "\<And>lv. wl lv = m (map lv col_pins) (map lv row_pins)"
  shows "SoftwareScan_check bbc_ss wl now_at w =
         SoftwareScan_check bbc_ss no_key now_at
           (fold (\<lambda>cx. fold (\<lambda>rx. process (now_at rx cx) rx cx)
                          (filter (\<lambda>rx. m (encoding cx 4) (encoding rx 3)) [0..<8]))
              [0..<16] w)"
proof -
  have cs: "\<forall>cx \<in> set [0..<16]. cx < (16::nat)" by simp
  show ?thesis
    unfolding SoftwareScan_check_def col_with_options_bbc_ss
    by (subst col_loop [of wl m, OF H cs]) (simp only: hits_pin_write)
qed

lemma check_row_no_key_fields:
  "bbc_keyboard (check_row no_key now_at cx rxo w) = bbc_keyboard w"
  "input_processor (check_row no_key now_at cx rxo w) = input_processor w"
  "stdout (check_row no_key now_at cx rxo w) = stdout w"
  by (simp_all add: check_row_no_key pin_write_fields set_pins_fields)

lemma fold_check_row_no_key_fields:
  "bbc_keyboard (fold (check_row no_key now_at cx) items w) = bbc_keyboard w"
  "input_processor (fold (check_row no_key now_at cx) items w) = input_processor w"
  "stdout (fold (check_row no_key now_at cx) items w) = stdout w"
  by (induction items arbitrary: w; simp add: check_row_no_key_fields)+

lemma check_column_no_key_fields:
  "bbc_keyboard (check_column self no_key now_at cxo w) = bbc_keyboard w"
  "input_processor (check_column self no_key now_at cxo w) = input_processor w"
  "stdout (check_column self no_key now_at cxo w) = stdout w"
  by (simp_all add: check_column_def fold_check_row_no_key_fields set_pins_fields)

lemma fold_check_column_no_key_fields:
  "bbc_keyboard (fold (check_column self no_key now_at) items w) = bbc_keyboard w"
  "input_processor (fold (check_column self no_key now_at) items w) = input_processor w"
  "stdout (fold (check_column self no_key now_at) items w) = stdout w"
  by (induction items arbitrary: w; simp add: check_column_no_key_fields)+

lemma sweep_no_key_fields:
  "bbc_keyboard (SoftwareScan_check self no_key now_at w) = bbc_keyboard w"
  "input_processor (SoftwareScan_check self no_key now_at w) = input_processor w"
  "stdout (SoftwareScan_check self no_key now_at w) = stdout w"
  by (simp_all add: SoftwareScan_check_def fold_check_column_no_key_fields pin_write_fields)

lemma only_key_matrix:
  "only_key r c lv = (encoding c 4 = map lv col_pins \<and> encoding r 3 = map lv row_pins)"
  by (simp add: only_key_def int_to_bin_encoding)

lemma filter_eq_upt: "filter (\<lambda>x. a = x) [0..<n] = (if a < n then [a] else [])"
  by (induction n) auto

lemma fold_only:
  "fold (\<lambda>x. if x = a then f else (\<lambda>w. w)) [0..<n] w = (if a < n then f w else w)"
  by (induction n) auto

lemma hits_only_key:
  assumes "r < 8" and "c < 16"
  shows "fold (\<lambda>cx. fold (\<lambda>rx. process (now_at rx cx) rx cx)
                  (filter (\<lambda>rx. encoding c 4 = encoding cx 4 \<and> encoding r 3 = encoding rx 3)
                     [0..<8]))
           [0..<16] w = process (now_at r c) r c w"
proof -
  have e: "(encoding c 4 = encoding cx 4 \<and> encoding r 3 = encoding rx 3) =
           (c = cx \<and> r = rx)" for cx rx
    by (auto dest: encoding_inj)
  have f: "filter (\<lambda>rx. c = cx \<and> r = rx) [0..<8] = (if cx = c then [r] else [])" for cx
    using assms(1) by (cases "cx = c") (simp_all add: filter_eq_upt del: upt_Suc)
  have g: "(\<lambda>cx. fold (\<lambda>rx. process (now_at rx cx) rx cx) (if cx = c then [r] else [])) =
           (\<lambda>cx. if cx = c then process (now_at r c) r c else (\<lambda>w. w))"
    by (rule ext) (auto simp add: fun_eq_iff)
  show ?thesis
    using assms(2) by (simp only: e f g fold_only) simp
qed

lemma sweep_only_key:
  assumes "r < 8" and "c < 16"
  shows "SoftwareScan_check bbc_ss (only_key r c) now_at w =
         SoftwareScan_check bbc_ss no_key now_at (process (now_at r c) r c w)"
  using sweep_split [of "only_key r c"
      "\<lambda>cs rs. encoding c 4 = cs \<and> encoding r 3 = rs" now_at w]
  by (simp add: only_key_matrix hits_only_key [OF assms])

lemma stdout_fold_process:
  "stdout (fold (\<lambda>rx. process (now_at rx cx) rx cx) rs w) =
     stdout w @ map (\<lambda>rx. ProcessLine rx cx (keys rx cx)) rs"
  by (induction rs arbitrary: w) (simp_all add: stdout_process)

lemma stdout_hits:
  "stdout (fold (\<lambda>cx. fold (\<lambda>rx. process (now_at rx cx) rx cx) (hits cx)) cs w) =
     stdout w @ concat (map (\<lambda>cx. map (\<lambda>rx. ProcessLine rx cx (keys rx cx)) (hits cx)) cs)"
  by (induction cs arbitrary: w) (simp_all add: stdout_fold_process)

lemma sweep_stdout:
  assumes "\<And>lv. wl lv = m (map lv col_pins) (map lv row_pins)"
  shows "stdout (SoftwareScan_check bbc_ss wl now_at w) =
         stdout w @
           concat (map (\<lambda>cx. map (\<lambda>rx. ProcessLine rx cx (keys rx cx))
                               (filter (\<lambda>rx. m (encoding cx 4) (encoding rx 3)) [0..<8]))
                     [0..<16])"
  by (simp only: sweep_split [of wl m, OF assms] sweep_no_key_fields stdout_hits)

lemma keys_3_7: "keys 3 7 = Some (Code Keycode_P)"
  by (simp add: keys_def keys_items_def)

lemma keys_0_5: "keys 0 5 = None"
  by (simp add: keys_def keys_items_def)

lemma process_mapped:
  assumes "keys r c = Some k" and "truthy k"
  shows "bbc_keyboard (process now r c w) = bbc_keyboard (input now k False w)"
    and "input_processor (process now r c w) = input_processor (input now k False w)"
proof -
  let ?w1 = "print (ProcessLine r c (Some k)) w"
  have p: "process now r c w = input now k False ?w1"
    using assms by (simp add: process_def Let_def)
  have k: "bbc_keyboard ?w1 = bbc_keyboard w" and i: "input_processor ?w1 = input_processor w"
    by (simp_all add: print_def)
  show "bbc_keyboard (process now r c w) = bbc_keyboard (input now k False w)"
    unfolding p by (rule input_cong_fields(1) [OF k i])
  show "input_processor (process now r c w) = input_processor (input now k False w)"
    unfolding p by (rule input_cong_fields(2) [OF k i])
qed

lemma process_unmapped:
  assumes "keys r c = None"
  shows "bbc_keyboard (process now r c w) = bbc_keyboard w"
    and "input_processor (process now r c w) = input_processor w"
  using assms by (simp_all add: process_def Let_def print_def)

section \<open>The key table and the writes of the sweep\<close>

lemma keys_shifted_distinct:
  "distinct (concat (map (\<lambda>item. shifted_codes (snd item)) keys_items))"
  by (simp add: keys_items_def)

lemma pin_writes_set_pins: "pin_writes (set_pins opts w) = pin_writes w @ opts"
  by (induction opts arbitrary: w) (simp_all add: set_pins_simps pin_write_fields)

lemma pin_writes_check_row:
  "pin_writes (check_row wl now_at cx rxo w) =
     pin_writes w @ snd rxo @ [(GP1, False), (GP1, True)]"
  by (simp add: check_row_def Let_def process_frame pin_write_fields pin_writes_set_pins)

lemma pin_writes_fold_check_row:
  "pin_writes (fold (check_row wl now_at cx) items w) =
     pin_writes w @ concat (map (\<lambda>rxo. snd rxo @ [(GP1, False), (GP1, True)]) items)"
  by (induction items arbitrary: w) (simp_all add: pin_writes_check_row)

lemma pin_writes_check_column:
  "pin_writes (check_column self wl now_at cxo w) =
     pin_writes w @ snd cxo
       @ concat (map (\<lambda>rxo. snd rxo @ [(GP1, False), (GP1, True)]) (row_with_options self))"
  by (simp add: check_column_def pin_writes_fold_check_row pin_writes_set_pins)

lemma pin_writes_fold_check_column:
  "pin_writes (fold (check_column self wl now_at) items w) =
     pin_writes w @
       concat (map (\<lambda>cxo. snd cxo @
                     concat (map (\<lambda>rxo. snd rxo @ [(GP1, False), (GP1, True)])
                               (row_with_options self))) items)"
  by (induction items arbitrary: w) (simp_all add: pin_writes_check_column)

lemma pin_writes_sweep:
  "pin_writes (SoftwareScan_check bbc_ss wl now_at w) =
     pin_writes w @ [(GP2, False)]
       @ concat (map (\<lambda>cx. zip col_pins (encoding cx 4) @
                   concat (map (\<lambda>rx. zip row_pins (encoding rx 3) @ [(GP1, False), (GP1, True)])
                             [0..<8])) [0..<16])
       @ [(GP2, True)]"
  by (simp add: SoftwareScan_check_def pin_writes_fold_check_column pin_write_fields
        col_with_options_bbc_ss row_with_options_bbc_ss comp_def del: upt_Suc)

text \<open>
  Claim C5. Whatever the sense line reads, a sweep switches the scan driver off, then for
  every column 0..15 drives the column pins with its bits and, inside, for every row 0..7
  drives the row pins with its bits and pulses the strobe, then switches the driver on: the
  128 selections, each once. When one key alone is down, at row \<open>r < 8\<close> and column
  \<open>c < 16\<close>, the sweep calls \<^verbatim>\<open>process\<close> for that coordinate and for no other: one line is
  printed, and the sink and the engine end as after \<^verbatim>\<open>process(r, c)\<close> alone. For row 3,
  column 7 this is the one call \<^verbatim>\<open>input(Keycode.P)\<close>; for the unmapped row 0, column 5 the
  line is printed and neither the engine nor the sink changes.
\<close>

theorem sweep_coverage:
  assumes "r < 8" and "c < 16"
  shows "pin_writes (SoftwareScan_check bbc_ss w_line now_at w) =
           pin_writes w @ [(GP2, False)]
             @ concat (map (\<lambda>cx. zip col_pins (encoding cx 4) @
                   concat (map (\<lambda>rx. zip row_pins (encoding rx 3) @ [(GP1, False), (GP1, True)])
                             [0..<8])) [0..<16])
             @ [(GP2, True)]
         \<and> stdout (SoftwareScan_check bbc_ss (only_key r c) now_at w) =
             stdout w @ [ProcessLine r c (keys r c)]
         \<and> bbc_keyboard (SoftwareScan_check bbc_ss (only_key r c) now_at w) =
             bbc_keyboard (process (now_at r c) r c w)
         \<and> input_processor (SoftwareScan_check bbc_ss (only_key r c) now_at w) =
             input_processor (process (now_at r c) r c w)
         \<and> stdout (SoftwareScan_check bbc_ss (only_key 3 7) now_at w) =
             stdout w @ [ProcessLine 3 7 (Some (Code Keycode_P))]
         \<and> bbc_keyboard (SoftwareScan_check bbc_ss (only_key 3 7) now_at w) =
             bbc_keyboard (input (now_at 3 7) (Code Keycode_P) False w)
         \<and> input_processor (SoftwareScan_check bbc_ss (only_key 3 7) now_at w) =
             input_processor (input (now_at 3 7) (Code Keycode_P) False w)
         \<and> stdout (SoftwareScan_check bbc_ss (only_key 0 5) now_at w) =
             stdout w @ [ProcessLine 0 5 None]
         \<and> bbc_keyboard (SoftwareScan_check bbc_ss (only_key 0 5) now_at w) = bbc_keyboard w
         \<and> input_processor (SoftwareScan_check bbc_ss (only_key 0 5) now_at w) =
             input_processor w"
proof -
  have g: "stdout (SoftwareScan_check bbc_ss (only_key r' c') now_at w) =
             stdout w @ [ProcessLine r' c' (keys r' c')]
         \<and> bbc_keyboard (SoftwareScan_check bbc_ss (only_key r' c') now_at w) =
             bbc_keyboard (process (now_at r' c') r' c' w)
         \<and> input_processor (SoftwareScan_check bbc_ss (only_key r' c') now_at w) =
             input_processor (process (now_at r' c') r' c' w)"
    if "r' < 8" and "c' < 16" for r' c'
    by (simp add: sweep_only_key [OF that] sweep_no_key_fields stdout_process)
  have p: "truthy (Code Keycode_P)" by simp
  note a = g [of 3 7, simplified]
  note b = g [of 0 5, simplified]
  from a have a': "stdout (SoftwareScan_check bbc_ss (only_key 3 7) now_at w) =
             stdout w @ [ProcessLine 3 7 (Some (Code Keycode_P))]
         \<and> bbc_keyboard (SoftwareScan_check bbc_ss (only_key 3 7) now_at w) =
             bbc_keyboard (input (now_at 3 7) (Code Keycode_P) False w)
         \<and> input_processor (SoftwareScan_check bbc_ss (only_key 3 7) now_at w) =
             input_processor (input (now_at 3 7) (Code Keycode_P) False w)"
    by (simp add: keys_3_7 process_mapped [OF keys_3_7 p])
  from b have b': "stdout (SoftwareScan_check bbc_ss (only_key 0 5) now_at w) =
             stdout w @ [ProcessLine 0 5 None]
         \<and> bbc_keyboard (SoftwareScan_check bbc_ss (only_key 0 5) now_at w) = bbc_keyboard w
         \<and> input_processor (SoftwareScan_check bbc_ss (only_key 0 5) now_at w) =
             input_processor w"
    by (simp add: keys_0_5 process_unmapped [OF keys_0_5])
  from g [OF assms] a' b' pin_writes_sweep [of w_line now_at w] show ?thesis by blast
qed

lemma keys_2_2: "keys 2 2 = Some (Code Keycode_E)"
  by (simp add: keys_def keys_items_def)

text \<open>
  From the start of the program, with the key E at row 2, column 2 alone down: one line, one
  press, one pending entry; likewise for P, and nothing for the unmapped coordinate.
\<close>

theorem sweep_coverage_witness:
  "(2::nat) < 8 \<and> (2::nat) < 16
   \<and> stdout (SoftwareScan_check bbc_ss (only_key 2 2) at_zero world_init) =
       [ProcessLine 2 2 (Some (Code Keycode_E))]
   \<and> sent (bbc_keyboard (SoftwareScan_check bbc_ss (only_key 2 2) at_zero world_init)) =
       [Press (Code Keycode_E)]
   \<and> queue (input_processor (SoftwareScan_check bbc_ss (only_key 2 2) at_zero world_init)) =
       [(Code Keycode_E, 0)]
   \<and> stdout (SoftwareScan_check bbc_ss (only_key 3 7) at_zero world_init) =
       [ProcessLine 3 7 (Some (Code Keycode_P))]
   \<and> sent (bbc_keyboard (SoftwareScan_check bbc_ss (only_key 3 7) at_zero world_init)) =
       [Press (Code Keycode_P)]
   \<and> stdout (SoftwareScan_check bbc_ss (only_key 0 5) at_zero world_init) =
       [ProcessLine 0 5 None]
   \<and> sent (bbc_keyboard (SoftwareScan_check bbc_ss (only_key 0 5) at_zero world_init)) = []"
proof -
  have h: "(2::nat) < 8" "(2::nat) < 16" by simp_all
  note t = sweep_coverage [OF h, of no_key at_zero world_init]
  have q: "truthy (Code Keycode_E)" by simp
  note pm = process_mapped [OF keys_2_2 q, of 0 world_init]
  have i: "sent (bbc_keyboard (input 0 (Code k) False world_init)) = [Press (Code k)]"
          "queue (input_processor (input 0 (Code k) False world_init)) = [(Code k, 0)]" for k
    by (simp_all add: input_plain_new world_init_simps sent_key_down)
  from t h show ?thesis
    by (simp add: keys_2_2 pm i at_zero_def world_init_simps)
qed

text \<open>
  Claim C7 at two inputs. The debouncer reports the button up (level high) while the pin
  reads low: the break key is forwarded. The debouncer reports the button down (level low)
  while the pin reads high: nothing is forwarded. In every state the sink and the engine
  after \<^verbatim>\<open>BreakButtonProcessor.check\<close> are the same for both debounced levels.
\<close>

theorem break_button_reads_raw_pin:
  "sent (bbc_keyboard (BreakButtonProcessor_check True False w_line now world_init)) =
     [Press (Code Keycode_BACKSPACE)]
   \<and> sent (bbc_keyboard (BreakButtonProcessor_check False True w_line now world_init)) = []
   \<and> bbc_keyboard (BreakButtonProcessor_check d raw w_line now w) =
       bbc_keyboard (BreakButtonProcessor_check d' raw w_line now w)
   \<and> input_processor (BreakButtonProcessor_check d raw w_line now w) =
       input_processor (BreakButtonProcessor_check d' raw w_line now w)"
  using break_raw_low_forwards [of w_line now] break_raw_high_silent [of w_line now] break_ignores_debouncer [of d raw w_line now w d']
  by blast

text \<open>
  Claim C6, as the code has it. On a tick with the interrupt line asserted,
  \<^verbatim>\<open>HardwareScan.check\<close> writes the strobe low, calls the sweep once in that state (strobe
  low, not written high again), sets the absence counter to 0, and after the sweep writes the
  strobe low and high and sets the caps-lock LED.
\<close>

theorem HardwareScan_check_tripped:
  "HardwareScan_check True led_on trigger_func absence_func w =
     align_leds led_on
       (set_on GP1 False
          (set_off GP1 False ((trigger_func (set_off GP1 False w))\<lparr>absence_count := 0\<rparr>)))
   \<and> pin_value (set_off GP1 False w) GP1 = False
   \<and> pin_writes (set_off GP1 False w) = pin_writes w @ [(GP1, False)]
   \<and> absence_count (HardwareScan_check True led_on trigger_func absence_func w) = 0
   \<and> pin_writes (HardwareScan_check True led_on trigger_func absence_func w) =
       pin_writes (trigger_func (set_off GP1 False w)) @
         [(GP1, False), (GP1, True), (GP15, \<not> led_on)]"
  using tripped_tick_eq [of led_on trigger_func absence_func w] set_off_strobe [of w]
    tripped_tick_writes [of led_on trigger_func absence_func w]
  by blast

text \<open>
  Against claim C6 as stated: from the start of the program, the first pin write of the tick
  puts the strobe low and the second is already the first write of the sweep (scan driver
  off); the strobe is not written high between them.
\<close>

theorem HardwareScan_check_no_pulse_before_sweep:
  "pin_writes world_init = []
   \<and> take 2 (pin_writes (HardwareScan_check True False
                (SoftwareScan_check bbc_ss no_key at_zero) no_input world_init)) =
       [(GP1, False), (GP2, False)]"
proof -
  have "pin_writes (set_off GP1 False world_init) = [(GP1, False)]"
    using set_off_strobe [of world_init] by (simp add: world_init_simps)
  then show ?thesis
    by (simp add: tripped_tick_writes pin_writes_sweep world_init_simps del: upt_Suc)
qed

section \<open>The encoding on the select lines\<close>

lemma encoding_0:
  "encoding 0 4 = [False, False, False, False]" "encoding 0 3 = [False, False, False]"
  by code_simp+

text \<open>
  Claim C9. For \<open>n \<ge> 1\<close> and \<open>0 \<le> v < 2 ^ n\<close>, \<^verbatim>\<open>int_to_bin(v, n)\<close> returns a list of
  exactly \<open>n\<close> booleans whose value, read with the most significant bit first, is \<open>v\<close>.
  The constructor of the software scan succeeds; its row item \<open>r\<close> (of 8) pairs the three
  row pins with \<^verbatim>\<open>int_to_bin(r, 3)\<close>, its column item \<open>c\<close> (of 16) pairs the four column
  pins with \<^verbatim>\<open>int_to_bin(c, 4)\<close>, and driving the pins with an item leaves exactly these
  bits on them. The sweep drives them: between the two writes of the scan driver, the pin
  writes of \<^verbatim>\<open>SoftwareScan.check\<close> are, for every column 0..15, the column pins paired with
  \<^verbatim>\<open>int_to_bin(column, 4)\<close> and then, for every row 0..7, the row pins paired with
  \<^verbatim>\<open>int_to_bin(row, 3)\<close> and the strobe pulse; and a sense line asserted exactly when the
  select pins carry \<^verbatim>\<open>int_to_bin(c, 4)\<close> and \<^verbatim>\<open>int_to_bin(r, 3)\<close> is found asserted once,
  at the cell of row \<open>r\<close> and column \<open>c\<close>.
\<close>

theorem int_to_bin_big_endian:
  assumes "1 \<le> n" and "0 \<le> v" and "v < 2 ^ n"
  shows "(\<exists>bs. int_to_bin v n = Inr bs \<and> length bs = n \<and> int (be_value bs) = v)
         \<and> SoftwareScan_init = Inr bbc_ss
         \<and> length (row_with_options bbc_ss) = 8
         \<and> length (col_with_options bbc_ss) = 16
         \<and> (\<forall>r<8. \<exists>bs. int_to_bin (int r) 3 = Inr bs
                \<and> row_with_options bbc_ss ! r = (r, zip row_pins bs)
                \<and> (\<forall>w. map (pin_value (set_pins (zip row_pins bs) w)) row_pins = bs))
         \<and> (\<forall>c<16. \<exists>bs. int_to_bin (int c) 4 = Inr bs
                \<and> col_with_options bbc_ss ! c = (c, zip col_pins bs)
                \<and> (\<forall>w. map (pin_value (set_pins (zip col_pins bs) w)) col_pins = bs))
         \<and> (\<forall>w_line now_at w.
               pin_writes (SoftwareScan_check bbc_ss w_line now_at w) =
                 pin_writes w @ [(GP2, False)]
                 @ concat (map (\<lambda>cx. zip col_pins (projr (int_to_bin (int cx) 4)) @
                     concat (map (\<lambda>rx. zip row_pins (projr (int_to_bin (int rx) 3)) @
                                       [(GP1, False), (GP1, True)])
                               [0..<8])) [0..<16])
                 @ [(GP2, True)])
         \<and> (\<forall>r<8. \<forall>c<16. \<forall>now_at w.
               stdout (SoftwareScan_check bbc_ss (only_key r c) now_at w) =
                 stdout w @ [ProcessLine r c (keys r c)])"
proof -
  from assms have v: "int_to_bin v n = Inr (encoding (nat v) n)"
    using int_to_bin_encoding [of "nat v" n] by simp
  from assms have lt: "nat v < 2 ^ n" by (simp add: nat_less_iff)
  with assms(1) have len: "length (encoding (nat v) n) = n"
    by (simp add: length_encoding)
  have val: "int (be_value (encoding (nat v) n)) = v"
    using assms(2) by (simp add: be_value_encoding)
  have rows: "\<exists>bs. int_to_bin (int r) 3 = Inr bs
                \<and> row_with_options bbc_ss ! r = (r, zip row_pins bs)
                \<and> (\<forall>w. map (pin_value (set_pins (zip row_pins bs) w)) row_pins = bs)"
    if "r < 8" for r
  proof -
    from that have "length (encoding r 3) = length row_pins"
      by (simp add: length_encoding length_pins)
    then have "\<forall>w. map (pin_value (set_pins (zip row_pins (encoding r 3)) w)) row_pins =
                 encoding r 3"
      by (simp add: pin_value_set_pins_zip length_pins)
    with that show ?thesis by (simp add: int_to_bin_encoding row_item)
  qed
  have cols: "\<exists>bs. int_to_bin (int c) 4 = Inr bs
                \<and> col_with_options bbc_ss ! c = (c, zip col_pins bs)
                \<and> (\<forall>w. map (pin_value (set_pins (zip col_pins bs) w)) col_pins = bs)"
    if "c < 16" for c
  proof -
    from that have "length (encoding c 4) = length col_pins"
      by (simp add: length_encoding length_pins)
    then have "\<forall>w. map (pin_value (set_pins (zip col_pins (encoding c 4)) w)) col_pins =
                 encoding c 4"
      by (simp add: pin_value_set_pins_zip length_pins)
    with that show ?thesis by (simp add: int_to_bin_encoding col_item)
  qed
  have writes: "\<forall>w_line now_at w.
               pin_writes (SoftwareScan_check bbc_ss w_line now_at w) =
                 pin_writes w @ [(GP2, False)]
                 @ concat (map (\<lambda>cx. zip col_pins (projr (int_to_bin (int cx) 4)) @
                     concat (map (\<lambda>rx. zip row_pins (projr (int_to_bin (int rx) 3)) @
                                       [(GP1, False), (GP1, True)])
                               [0..<8])) [0..<16])
                 @ [(GP2, True)]"
    by (simp only: int_to_bin_encoding sum.sel pin_writes_sweep) simp
  have sense: "\<forall>r<8. \<forall>c<16. \<forall>now_at w.
               stdout (SoftwareScan_check bbc_ss (only_key r c) now_at w) =
                 stdout w @ [ProcessLine r c (keys r c)]"
    by (simp add: sweep_only_key sweep_no_key_fields stdout_process)
  have first: "(\<exists>bs. int_to_bin v n = Inr bs \<and> length bs = n \<and> int (be_value bs) = v)
         \<and> SoftwareScan_init = Inr bbc_ss
         \<and> length (row_with_options bbc_ss) = 8
         \<and> length (col_with_options bbc_ss) = 16"
    using v len val
    by (simp add: SoftwareScan_init_ok row_with_options_bbc_ss col_with_options_bbc_ss
          del: upt_Suc)
  from rows have rows': "\<forall>r<8. \<exists>bs. int_to_bin (int r) 3 = Inr bs
                \<and> row_with_options bbc_ss ! r = (r, zip row_pins bs)
                \<and> (\<forall>w. map (pin_value (set_pins (zip row_pins bs) w)) row_pins = bs)"
    by blast
  from cols have cols': "\<forall>c<16. \<exists>bs. int_to_bin (int c) 4 = Inr bs
                \<and> col_with_options bbc_ss ! c = (c, zip col_pins bs)
                \<and> (\<forall>w. map (pin_value (set_pins (zip col_pins bs) w)) col_pins = bs)"
    by blast
  from first rows' cols' writes sense show ?thesis by blast
qed


text \<open>
  The number 5 on three bits, the row item 3 and the column item 7; the first ten pin writes
  of a sweep from the start of the program (scan driver off, column 0 and row 0 as four and
  three low bits, the strobe pulse); the one cell found for the key at row 3, column 7.
\<close>

theorem int_to_bin_big_endian_witness:
  "(1::nat) \<le> 3 \<and> (0::int) \<le> 5 \<and> (5::int) < 2 ^ 3
   \<and> int_to_bin 5 3 = Inr [True, False, True]
   \<and> length [True, False, True] = 3
   \<and> be_value [True, False, True] = 5
   \<and> (3::nat) < 8
   \<and> row_with_options bbc_ss ! 3 = (3, [(GP5, False), (GP4, True), (GP3, True)])
   \<and> (7::nat) < 16
   \<and> col_with_options bbc_ss ! 7 = (7, [(GP9, False), (GP8, True), (GP7, True), (GP6, True)])
   \<and> take 10 (pin_writes (SoftwareScan_check bbc_ss no_key at_zero world_init)) =
       [(GP2, False), (GP9, False), (GP8, False), (GP7, False), (GP6, False),
        (GP5, False), (GP4, False), (GP3, False), (GP1, False), (GP1, True)]
   \<and> stdout (SoftwareScan_check bbc_ss (only_key 3 7) at_zero world_init) =
       [ProcessLine 3 7 (Some (Code Keycode_P))]"
proof -
  have h: "(1::nat) \<le> 3" "(0::int) \<le> 5" "(5::int) < 2 ^ 3" by simp_all
  note t = int_to_bin_big_endian [OF h]
  have e5: "int_to_bin 5 3 = Inr [True, False, True]" by code_simp
  have e3: "int_to_bin (int 3) 3 = Inr [False, True, True]" by code_simp
  have e7: "int_to_bin (int 7) 4 = Inr [False, True, True, True]" by code_simp
  from t obtain bs where "int_to_bin 5 3 = Inr bs" "length bs = 3" "int (be_value bs) = 5"
    by blast
  with e5 have a: "length [True, False, True] = 3" "be_value [True, False, True] = 5"
    by auto
  from t have R: "\<forall>r<8. \<exists>bs. int_to_bin (int r) 3 = Inr bs
                \<and> row_with_options bbc_ss ! r = (r, zip row_pins bs)
                \<and> (\<forall>w. map (pin_value (set_pins (zip row_pins bs) w)) row_pins = bs)"
    by blast
  have r3: "(3::nat) < 8" by simp
  from R [rule_format, OF r3] e3
  have b: "row_with_options bbc_ss ! 3 = (3, [(GP5, False), (GP4, True), (GP3, True)])"
    by (auto simp add: row_pins_def)
  from t have C: "\<forall>c<16. \<exists>bs. int_to_bin (int c) 4 = Inr bs
                \<and> col_with_options bbc_ss ! c = (c, zip col_pins bs)
                \<and> (\<forall>w. map (pin_value (set_pins (zip col_pins bs) w)) col_pins = bs)"
    by blast
  have c7: "(7::nat) < 16" by simp
  from C [rule_format, OF c7] e7
  have c: "col_with_options bbc_ss ! 7 =
             (7, [(GP9, False), (GP8, True), (GP7, True), (GP6, True)])"
    by (auto simp add: col_pins_def)
  from t have W: "pin_writes (SoftwareScan_check bbc_ss no_key at_zero world_init) =
                 pin_writes world_init @ [(GP2, False)]
                 @ concat (map (\<lambda>cx. zip col_pins (projr (int_to_bin (int cx) 4)) @
                     concat (map (\<lambda>rx. zip row_pins (projr (int_to_bin (int rx) 3)) @
                                       [(GP1, False), (GP1, True)])
                               [0..<8])) [0..<16])
                 @ [(GP2, True)]"
    by blast
  have u: "[0..<16] = 0 # [1..<16]" "[0..<8] = 0 # [1..<8]"
    by (simp_all add: upt_conv_Cons)
  have d: "take 10 (pin_writes (SoftwareScan_check bbc_ss no_key at_zero world_init)) =
       [(GP2, False), (GP9, False), (GP8, False), (GP7, False), (GP6, False),
        (GP5, False), (GP4, False), (GP3, False), (GP1, False), (GP1, True)]"
    unfolding W u
    by (simp add: int_to_bin_encoding encoding_0 col_pins_def row_pins_def world_init_simps
          del: upt_Suc)
  from t have S: "\<forall>r<8. \<forall>c<16. \<forall>now_at w.
               stdout (SoftwareScan_check bbc_ss (only_key r c) now_at w) =
                 stdout w @ [ProcessLine r c (keys r c)]"
    by blast
  from S [rule_format, OF r3 c7, of at_zero world_init]
  have s: "stdout (SoftwareScan_check bbc_ss (only_key 3 7) at_zero world_init) =
       [ProcessLine 3 7 (Some (Code Keycode_P))]"
    by (simp add: keys_3_7 world_init_simps)
  from h e5 a r3 b c7 c d s show ?thesis by simp
qed

end
